theory Spec2Isabelle
  imports Complex_Main "HOL-Library.Multiset"
begin

section \<open>Text primitives\<close>

text \<open>
  Python strings are modelled as \<^typ>\<open>string\<close>; a \<^typ>\<open>char\<close> stands for a code point
  below 256.  The character classes are the ones of Python's \<^verbatim>\<open>re\<close> module and of
  \<^verbatim>\<open>str.strip\<close> on that range.
\<close>

definition is_space :: "char \<Rightarrow> bool" where
  \<comment> \<open>\<^verbatim>\<open>\s\<close> and the characters removed by \<^verbatim>\<open>str.strip()\<close>\<close>
  "is_space c =
     (let n = (of_char c :: nat)
      in (9 \<le> n \<and> n \<le> 13) \<or> (28 \<le> n \<and> n \<le> 32) \<or> n = 133 \<or> n = 160)"

definition is_digit :: "char \<Rightarrow> bool" where
  \<comment> \<open>\<^verbatim>\<open>[0-9]\<close>\<close>
  "is_digit c = (let n = (of_char c :: nat) in 48 \<le> n \<and> n \<le> 57)"

definition is_num_char :: "char \<Rightarrow> bool" where
  \<comment> \<open>\<^verbatim>\<open>[0-9,.]\<close>\<close>
  "is_num_char c = (is_digit c \<or> c = CHR '','' \<or> c = CHR ''.'')"

definition strip :: "string \<Rightarrow> string" where
  \<comment> \<open>\<^verbatim>\<open>s.strip()\<close>\<close>
  "strip s = rev (dropWhile is_space (rev (dropWhile is_space s)))"

definition rstrip_chars :: "string \<Rightarrow> string \<Rightarrow> string" where
  \<comment> \<open>\<^verbatim>\<open>s.rstrip(cs)\<close>\<close>
  "rstrip_chars cs s = rev (dropWhile (\<lambda>c. c \<in> set cs) (rev s))"

definition remove_char :: "char \<Rightarrow> string \<Rightarrow> string" where
  \<comment> \<open>\<^verbatim>\<open>s.replace(c, "")\<close> for a one-character \<^verbatim>\<open>c\<close>\<close>
  "remove_char c s = filter (\<lambda>x. x \<noteq> c) s"

text \<open>
  \<^verbatim>\<open>re.findall\<close> for a pattern with one group: the text is scanned from the left; where
  the pattern matches, the group is collected and the scan resumes after the match;
  elsewhere it moves one character on.  A matcher tries the pattern at the head of its
  argument and gives the group and the length of the match.
\<close>

type_synonym matcher = "string \<Rightarrow> (string \<times> nat) option"

fun findall :: "matcher \<Rightarrow> string \<Rightarrow> string list" where
  "findall m [] = []"
| "findall m (c # cs) =
     (case m (c # cs) of
        Some (g, n) \<Rightarrow> g # findall m (drop (n - 1) cs)
      | None \<Rightarrow> findall m cs)"

section \<open>Answer normalization (agent\_utils.extract\_final\_answer)\<close>

definition match_marker :: matcher where
  \<comment> \<open>\<^verbatim>\<open>####\s*([0-9,.]+)\<close>\<close>
  "match_marker s =
     (if take 4 s = ''####'' then
        (let ws = takeWhile is_space (drop 4 s);
             g = takeWhile is_num_char (drop (4 + length ws) s)
         in if g = [] then None else Some (g, 4 + length ws + length g))
      else None)"

definition match_number :: matcher where
  \<comment> \<open>\<^verbatim>\<open>([0-9,.]+)\<close>\<close>
  "match_number s =
     (let g = takeWhile is_num_char s
      in if g = [] then None else Some (g, length g))"

definition normalize_number :: "string \<Rightarrow> string" where
  \<comment> \<open>\<^verbatim>\<open>m.replace(",", "").strip()\<close> followed by \<^verbatim>\<open>.rstrip(".")\<close>\<close>
  "normalize_number m = rstrip_chars ''.'' (strip (remove_char (CHR '','') m))"

definition extract_final_answer :: "string \<Rightarrow> string" where
  "extract_final_answer text =
     (let matches = findall match_marker text in
      if matches \<noteq> [] then normalize_number (last matches)
      else
        (let fallback_matches = findall match_number text in
         if fallback_matches \<noteq> [] then normalize_number (last fallback_matches)
         else ''''))"

text \<open>The shape of a normalized answer: digits and periods, ending in a digit unless empty.\<close>

definition normal_form :: "string \<Rightarrow> bool" where
  "normal_form r = ((\<forall>c \<in> set r. is_digit c \<or> c = CHR ''.'') \<and> (r = [] \<or> is_digit (last r)))"


section \<open>Evaluation harness (evolution/evaluation.py)\<close>

text \<open>
  A sample of a dataset split has a question and a reference answer.  The examples
  collected while mining failures are the dictionaries with the keys
  \<^verbatim>\<open>question\<close>, \<^verbatim>\<open>correct_answer\<close> and \<^verbatim>\<open>agent_output\<close>.
\<close>

record sample =
  question :: string
  answer :: string

record example =
  ex_question :: string
  correct_answer :: string
  agent_output :: string

text \<open>
  A call of \<^verbatim>\<open>run_agent\<close> either returns its output (read through \<^verbatim>\<open>str\<close>) or
  raises an exception, of which the formatted traceback is kept.  The call runs
  generated code and a language model: it reads and changes a state \<open>'w\<close> of the
  outside world, which every call receives and hands on.  A loaded module may lack the
  attribute \<^verbatim>\<open>run_agent\<close>; a module that could not be loaded is \<^term>\<open>None\<close>.
\<close>

datatype run_result = Returned string | Raised string

type_synonym 'w runner = "string \<Rightarrow> 'w \<Rightarrow> run_result \<times> 'w"

datatype 'w agent_module = Agent_module (run_agent: "'w runner option")

fun evaluation_loop :: "'w runner \<Rightarrow> sample list \<Rightarrow> nat \<Rightarrow> 'w \<Rightarrow> nat \<times> 'w" where
  "evaluation_loop agent_runner [] success_count w = (success_count, w)"
| "evaluation_loop agent_runner (smp # rest) success_count w =
     (case agent_runner (question smp) w of
        (r, w') \<Rightarrow>
          (case r of
             Returned agent_answer_raw \<Rightarrow>
               if extract_final_answer agent_answer_raw = extract_final_answer (answer smp)
                  \<and> extract_final_answer (answer smp) \<noteq> ''''
               then evaluation_loop agent_runner rest (success_count + 1) w'
               else evaluation_loop agent_runner rest success_count w'
           | Raised e \<Rightarrow> evaluation_loop agent_runner rest success_count w'))"

definition evaluate_agent_on_dataset ::
  "'w agent_module option \<Rightarrow> sample list \<Rightarrow> 'w \<Rightarrow> real \<times> 'w" where
  "evaluate_agent_on_dataset agent_module dataset w =
     (case agent_module of
        None \<Rightarrow> (0, w)
      | Some m \<Rightarrow>
          (case run_agent m of
             None \<Rightarrow> (0, w)
           | Some agent_runner \<Rightarrow>
               (let total_count = length dataset in
                if total_count = 0 then (0, w)
                else
                  (case evaluation_loop agent_runner dataset 0 w of
                     (success_count, w') \<Rightarrow>
                       (real success_count / real total_count, w')))))"

text \<open>
  Failure mining.  The loop over the shuffled split stops at the first sample it reaches
  once \<^verbatim>\<open>max_failures\<close> failures are held; besides the two lists it gives the samples
  it has not run (the one that was reached and all after it), which the source leaves
  in the iterator.
\<close>

fun mining_loop ::
  "'w runner \<Rightarrow> int \<Rightarrow> sample list \<Rightarrow> example list \<Rightarrow> example list \<Rightarrow> 'w
     \<Rightarrow> (example list \<times> example list \<times> sample list) \<times> 'w" where
  "mining_loop agent_runner max_failures [] failures successes w =
     ((failures, successes, []), w)"
| "mining_loop agent_runner max_failures (smp # rest) failures successes w =
     (if int (length failures) \<ge> max_failures then ((failures, successes, smp # rest), w)
      else
        (case agent_runner (question smp) w of
           (r, w') \<Rightarrow>
             (case r of
                Returned agent_answer_raw \<Rightarrow>
                  if extract_final_answer agent_answer_raw = extract_final_answer (answer smp)
                     \<and> extract_final_answer (answer smp) \<noteq> ''''
                  then mining_loop agent_runner max_failures rest failures
                         (successes @ [\<lparr>ex_question = question smp, correct_answer = answer smp,
                                        agent_output = agent_answer_raw\<rparr>]) w'
                  else mining_loop agent_runner max_failures rest
                         (failures @ [\<lparr>ex_question = question smp, correct_answer = answer smp,
                                       agent_output = ''Wrong Answer: '' @ agent_answer_raw\<rparr>])
                         successes w'
              | Raised traceback \<Rightarrow>
                  mining_loop agent_runner max_failures rest
                    (failures @ [\<lparr>ex_question = question smp, correct_answer = answer smp,
                                  agent_output = ''Runtime Error: '' @ traceback\<rparr>])
                    successes w')))"

text \<open>
  \<^verbatim>\<open>train_dataset.shuffle(seed=np.random.randint(10000))\<close> is a collaborator: it draws
  from the random generator in the outside world and gives the split in a new order.
\<close>

type_synonym 'w shuffler = "sample list \<Rightarrow> 'w \<Rightarrow> sample list \<times> 'w"

definition find_failures_on_train ::
  "'w shuffler \<Rightarrow> 'w agent_module option \<Rightarrow> sample list \<Rightarrow> int \<Rightarrow> 'w
     \<Rightarrow> (example list \<times> example list) \<times> 'w" where
  "find_failures_on_train shuffle agent_module train_dataset max_failures w =
     (case agent_module of
        None \<Rightarrow> (([], []), w)
      | Some m \<Rightarrow>
          (case run_agent m of
             None \<Rightarrow> (([], []), w)
           | Some agent_runner \<Rightarrow>
               (case shuffle train_dataset w of
                  (shuffled, w1) \<Rightarrow>
                    (case mining_loop agent_runner max_failures shuffled [] [] w1 of
                       ((failures, successes, unvisited), w2) \<Rightarrow>
                         ((failures, successes), w2)))))"

text \<open>
  For stating what the two loops compute: the results of running the candidate on the
  questions of a list of samples in order, each run starting in the world the previous
  one left, and the rule that classifies one sample by the result of its run.
\<close>

fun run_results :: "'w runner \<Rightarrow> sample list \<Rightarrow> 'w \<Rightarrow> run_result list" where
  "run_results agent_runner [] w = []"
| "run_results agent_runner (smp # rest) w =
     (case agent_runner (question smp) w of
        (r, w') \<Rightarrow> r # run_results agent_runner rest w')"

fun is_success :: "sample \<times> run_result \<Rightarrow> bool" where
  "is_success (smp, Returned out) =
     (extract_final_answer out = extract_final_answer (answer smp)
      \<and> extract_final_answer (answer smp) \<noteq> '''')"
| "is_success (smp, Raised e) = False"

fun mined_example :: "sample \<times> run_result \<Rightarrow> example" where
  "mined_example (smp, Returned out) =
     (if is_success (smp, Returned out)
      then \<lparr>ex_question = question smp, correct_answer = answer smp, agent_output = out\<rparr>
      else \<lparr>ex_question = question smp, correct_answer = answer smp,
             agent_output = ''Wrong Answer: '' @ out\<rparr>)"
| "mined_example (smp, Raised traceback) =
     \<lparr>ex_question = question smp, correct_answer = answer smp,
      agent_output = ''Runtime Error: '' @ traceback\<rparr>"

definition samples_run :: "'w runner \<Rightarrow> int \<Rightarrow> sample list \<Rightarrow> 'w \<Rightarrow> nat" where
  \<comment> \<open>how many samples of the (shuffled) split the mining loop ran the candidate on\<close>
  "samples_run agent_runner max_failures shuffled w =
     length shuffled
       - length (snd (snd (fst (mining_loop agent_runner max_failures shuffled [] [] w))))"

definition failures_among :: "(sample \<times> run_result) list \<Rightarrow> example list" where
  "failures_among zs = map mined_example (filter (\<lambda>z. \<not> is_success z) zs)"

definition successes_among :: "(sample \<times> run_result) list \<Rightarrow> example list" where
  "successes_among zs = map mined_example (filter is_success zs)"

text \<open>
  A small candidate and split for trying the harness: the candidate answers one
  question rightly, one wrongly and raises on every other; the world counts its runs.
\<close>

definition demo_runner :: "nat runner" where
  "demo_runner q w =
     (if q = ''2+2'' then (Returned ''so the answer is #### 4.'', Suc w)
      else if q = ''1+1'' then (Returned ''3'', Suc w)
      else (Raised ''ZeroDivisionError'', Suc w))"

definition demo_split :: "sample list" where
  "demo_split =
     [\<lparr>question = ''1/0'', answer = ''#### 7''\<rparr>,
      \<lparr>question = ''2+2'', answer = ''2+2 is 4 #### 4''\<rparr>,
      \<lparr>question = ''1+1'', answer = ''#### 2''\<rparr>]"

definition demo_shuffle :: "nat shuffler" where
  "demo_shuffle ds w = (rev ds, w)"

definition demo_module :: "nat agent_module" where
  "demo_module = Agent_module (Some demo_runner)"



section \<open>Validation gate (agent\_utils.validate\_agent\_model\_usage)\<close>

text \<open>
  The pattern is compiled with \<^verbatim>\<open>re.IGNORECASE | re.VERBOSE\<close>: the white space of the
  pattern is not part of it, and a lower-case letter of the pattern also matches its
  upper-case form.  The pattern reads
  \<^verbatim>\<open>model\s*=\s*['"](gpt-[\w.-]+|claude-[\w.-]+|gemini-[\w.-]+)['"]\<close>.
\<close>

definition ci_eq :: "char \<Rightarrow> char \<Rightarrow> bool" where
  \<comment> \<open>the character \<open>c\<close> of the text matches the (lower-case) character \<open>l\<close> of the pattern\<close>
  "ci_eq l c =
     (c = l \<or> (65 \<le> (of_char c :: nat) \<and> (of_char c :: nat) \<le> 90
                \<and> (of_char l :: nat) = of_char c + 32))"

definition ci_prefix :: "string \<Rightarrow> string \<Rightarrow> bool" where
  \<comment> \<open>the literal \<open>lit\<close> of the pattern matches at the head of \<open>s\<close>\<close>
  "ci_prefix lit s = (length lit \<le> length s \<and> list_all2 ci_eq lit (take (length lit) s))"

definition is_quote :: "char \<Rightarrow> bool" where
  \<comment> \<open>\<^verbatim>\<open>['"]\<close>\<close>
  "is_quote c = (c = CHR 0x27 \<or> c = CHR 0x22)"

definition is_word_char :: "char \<Rightarrow> bool" where
  \<comment> \<open>\<^verbatim>\<open>\w\<close>: the alphanumeric characters and the underscore\<close>
  "is_word_char c =
     (let n = (of_char c :: nat)
      in (48 \<le> n \<and> n \<le> 57) \<or> (65 \<le> n \<and> n \<le> 90) \<or> n = 95 \<or> (97 \<le> n \<and> n \<le> 122)
         \<or> n = 170 \<or> n = 178 \<or> n = 179 \<or> n = 181 \<or> n = 185 \<or> n = 186
         \<or> (188 \<le> n \<and> n \<le> 190) \<or> (192 \<le> n \<and> n \<le> 214) \<or> (216 \<le> n \<and> n \<le> 246)
         \<or> 248 \<le> n)"

definition is_model_char :: "char \<Rightarrow> bool" where
  \<comment> \<open>\<^verbatim>\<open>[\w.-]\<close>\<close>
  "is_model_char c = (is_word_char c \<or> c = CHR ''.'' \<or> c = CHR ''-'')"

definition vendor_prefix :: "string \<Rightarrow> nat option" where
  \<comment> \<open>which of \<^verbatim>\<open>gpt-\<close>, \<^verbatim>\<open>claude-\<close>, \<^verbatim>\<open>gemini-\<close> stands at the head, by its length\<close>
  "vendor_prefix s =
     (if ci_prefix ''gpt-'' s then Some 4
      else if ci_prefix ''claude-'' s then Some 7
      else if ci_prefix ''gemini-'' s then Some 7
      else None)"

definition match_model :: matcher where
  "match_model s =
     (if ci_prefix ''model'' s then
        (let ws1 = takeWhile is_space (drop 5 s)
         in case drop (5 + length ws1) s of
              [] \<Rightarrow> None
            | e # r2 \<Rightarrow>
                if e \<noteq> CHR ''='' then None
                else
                  (let ws2 = takeWhile is_space r2
                   in case drop (length ws2) r2 of
                        [] \<Rightarrow> None
                      | q1 # r4 \<Rightarrow>
                          if \<not> is_quote q1 then None
                          else
                            (case vendor_prefix r4 of
                               None \<Rightarrow> None
                             | Some k \<Rightarrow>
                                 (let run = takeWhile is_model_char (drop k r4)
                                  in if run = [] then None
                                     else
                                       (case drop (k + length run) r4 of
                                          [] \<Rightarrow> None
                                        | q2 # r6 \<Rightarrow>
                                            if is_quote q2
                                            then Some (take (k + length run) r4,
                                                       5 + length ws1 + 1 + length ws2 + 1
                                                         + k + length run + 1)
                                            else None)))))
      else None)"

fun models_allowed :: "string list \<Rightarrow> string \<Rightarrow> bool" where
  \<comment> \<open>the loop over \<^verbatim>\<open>found_models\<close>: \<^verbatim>\<open>False\<close> at the first model that differs\<close>
  "models_allowed [] allowed_model = True"
| "models_allowed (model # rest) allowed_model =
     (if strip model \<noteq> strip allowed_model then False
      else models_allowed rest allowed_model)"

definition validate_agent_model_usage :: "string \<Rightarrow> string \<Rightarrow> bool" where
  "validate_agent_model_usage code_string allowed_model =
     (let found_models = findall match_model code_string
      in if found_models = [] then True
         else models_allowed found_models allowed_model)"

text \<open>
  The texts the pattern matches, described without the scan.  A vendor literal is one of
  the three vendor prefixes, in any letter case, followed by at least one character of
  \<^verbatim>\<open>[\w.-]\<close>.  The pattern text for a literal is the letters \<^verbatim>\<open>model\<close> in any letter
  case, optional white space, an equals sign, optional white space, a quote character,
  the literal, and a quote character (either of the two, not necessarily the one that
  opened).  The pattern occurs in a source text when such a pattern text stands anywhere
  in it, also directly after the characters of a longer identifier.
\<close>

definition vendor_literal :: "string \<Rightarrow> bool" where
  "vendor_literal m =
     (\<exists>v r. m = v @ r
        \<and> (list_all2 ci_eq ''gpt-'' v \<or> list_all2 ci_eq ''claude-'' v
             \<or> list_all2 ci_eq ''gemini-'' v)
        \<and> r \<noteq> [] \<and> (\<forall>c \<in> set r. is_model_char c))"

definition model_pattern_text :: "string \<Rightarrow> string \<Rightarrow> bool" where
  "model_pattern_text m decl =
     (\<exists>kw ws1 ws2 q1 q2.
        decl = kw @ ws1 @ ''='' @ ws2 @ [q1] @ m @ [q2]
        \<and> list_all2 ci_eq ''model'' kw
        \<and> (\<forall>c \<in> set ws1. is_space c) \<and> (\<forall>c \<in> set ws2. is_space c)
        \<and> is_quote q1 \<and> is_quote q2 \<and> vendor_literal m)"

definition model_pattern_occurs :: "string \<Rightarrow> string \<Rightarrow> bool" where
  "model_pattern_occurs code m = (\<exists>pre decl post. code = pre @ decl @ post \<and> model_pattern_text m decl)"

definition dq :: char where
  \<comment> \<open>the double quote\<close>
  "dq = CHR 0x22"

definition sq :: char where
  \<comment> \<open>the single quote\<close>
  "sq = CHR 0x27"

text \<open>
  The declarations the specification speaks of, read from its words: a configuration key
  named \<^verbatim>\<open>model\<close> (the identifier itself, in lower case, not the end of a longer
  identifier, possibly written as a quoted dictionary key) is bound, by an assignment
  \<^verbatim>\<open>model = ...\<close>, an annotated assignment \<^verbatim>\<open>model: type = ...\<close> or a dictionary entry
  \<^verbatim>\<open>"model": ...\<close>, to a quoted literal, that is a text between two equal quote
  characters, which starts with \<^verbatim>\<open>gpt-\<close>, \<^verbatim>\<open>claude-\<close> or \<^verbatim>\<open>gemini-\<close> and goes on.  By
  the specification a proposal is to be discarded when one of these literals differs
  from the sanctioned task-model string.
\<close>

definition vendor_prefixed :: "string \<Rightarrow> bool" where
  "vendor_prefixed m =
     ((4 < length m \<and> take 4 m = ''gpt-'') \<or> (7 < length m \<and> take 7 m = ''claude-'')
      \<or> (7 < length m \<and> take 7 m = ''gemini-''))"

definition quoted_literal :: "string \<Rightarrow> string option" where
  \<comment> \<open>the vendor-prefixed literal between matching quotes at the head of the text\<close>
  "quoted_literal s =
     (case s of
        [] \<Rightarrow> None
      | q # r \<Rightarrow>
          if \<not> is_quote q then None
          else
            (let m = takeWhile (\<lambda>c. c \<noteq> q) r
             in if drop (length m) r \<noteq> [] \<and> vendor_prefixed m then Some m else None))"

definition claimed_binding :: "string \<Rightarrow> string option" where
  \<comment> \<open>the literal which a declaration at the head of the text binds to the key \<^verbatim>\<open>model\<close>\<close>
  "claimed_binding s =
     (if take 5 s \<noteq> ''model'' then None
      else
        (let after_key = (case drop 5 s of
                            [] \<Rightarrow> []
                          | c # cs \<Rightarrow> if is_quote c then cs else c # cs)
         in case dropWhile is_space after_key of
              [] \<Rightarrow> None
            | b # r \<Rightarrow>
                if b = CHR ''='' then quoted_literal (dropWhile is_space r)
                else if b = CHR '':'' then
                  (case quoted_literal (dropWhile is_space r) of
                     Some m \<Rightarrow> Some m
                   | None \<Rightarrow>
                       (case dropWhile (\<lambda>c. c \<noteq> CHR ''='' \<and> \<not> is_quote c \<and> c \<noteq> CHR 0x0A) r of
                          [] \<Rightarrow> None
                        | e # r' \<Rightarrow>
                            if e = CHR ''='' then quoted_literal (dropWhile is_space r')
                            else None))
                else None))"

fun claimed_literals :: "bool \<Rightarrow> string \<Rightarrow> string list" where
  \<comment> \<open>the literals bound to the key anywhere in the text; the flag tells whether the
      character before belongs to an identifier\<close>
  "claimed_literals in_identifier [] = []"
| "claimed_literals in_identifier (c # cs) =
     (if in_identifier then []
      else (case claimed_binding (c # cs) of Some m \<Rightarrow> [m] | None \<Rightarrow> []))
     @ claimed_literals (is_word_char c) cs"

definition claim_discards :: "string \<Rightarrow> string \<Rightarrow> bool" where
  "claim_discards code allowed_model =
     list_ex (\<lambda>m. m \<noteq> allowed_model) (claimed_literals False code)"

section \<open>The outside world and the collaborators\<close>

text \<open>
  The loop works on a world outside its own variables: the files it reads, writes and
  removes (a file system taken to be reliable, from path to contents), the interpreter's
  search path \<^verbatim>\<open>sys.path\<close>, the names registered in \<^verbatim>\<open>sys.modules\<close>, and the state
  \<open>'e\<close> of everything else the generated code and the collaborators can read or change
  (random generators, the language-model service).  Printing and the telemetry sink
  (\<^verbatim>\<open>log_event\<close>) are left out.
\<close>

record 'e world =
  files :: "string \<rightharpoonup> string"
  sys_path :: "string list"
  sys_modules :: "string set"
  env :: 'e

text \<open>
  What the code calls and does not define: the path functions of \<^verbatim>\<open>os.path\<close>, whether
  \<^verbatim>\<open>importlib\<close> has a loader for a location, the execution of a module's source
  (which gives the populated module or raises, and may change the world), numpy's
  weighted sampling with replacement, the shuffle of the training split, and the
  developer agent, which gives the proposed source text or nothing.
\<close>

record 'e collaborators =
  abspath :: "string \<Rightarrow> string"
  dirname :: "string \<Rightarrow> string"
  path_join :: "string \<Rightarrow> string \<Rightarrow> string"
  has_loader :: "string \<Rightarrow> bool"
  exec_module :: "string \<Rightarrow> string \<Rightarrow> 'e world \<Rightarrow> (string + 'e world agent_module) \<times> 'e world"
  random_choice :: "nat list \<Rightarrow> nat \<Rightarrow> real list \<Rightarrow> 'e world \<Rightarrow> nat list \<times> 'e world"
  dataset_shuffle :: "'e world shuffler"
  call_developer_agent ::
    "string \<Rightarrow> example list \<Rightarrow> example list \<Rightarrow> string \<Rightarrow> string \<Rightarrow> string \<Rightarrow> 'e world
       \<Rightarrow> string option \<times> 'e world"

section \<open>Candidate loader (agent\_utils.load\_agent\_from\_file)\<close>

text \<open>
  Every exception raised inside the \<^verbatim>\<open>try\<close> block ends in the handler, which returns
  \<^verbatim>\<open>None\<close> and leaves the world as it is at that point: an exception of
  \<^verbatim>\<open>exec_module\<close>, and the \<^verbatim>\<open>IndexError\<close> of \<^verbatim>\<open>sys.path[0]\<close> on an empty search path.
\<close>

definition load_agent_from_file ::
  "'e collaborators \<Rightarrow> string \<Rightarrow> string \<Rightarrow> 'e world \<Rightarrow> 'e world agent_module option \<times> 'e world" where
  "load_agent_from_file X filepath module_name w =
     (let abs_filepath = abspath X filepath in
      if \<not> has_loader X abs_filepath then (None, w)
      else
        (let w1 = w\<lparr>sys_modules := insert module_name (sys_modules w)\<rparr>;
             module_dir = dirname X abs_filepath;
             w2 = (if module_dir \<notin> set (sys_path w1)
                   then w1\<lparr>sys_path := module_dir # sys_path w1\<rparr> else w1)
         in case exec_module X abs_filepath module_name w2 of
              (Inl traceback, w3) \<Rightarrow> (None, w3)
            | (Inr agent_module, w3) \<Rightarrow>
                (case sys_path w3 of
                   [] \<Rightarrow> (None, w3)
                 | p0 # ps \<Rightarrow>
                     (let w4 = (if p0 = module_dir then w3\<lparr>sys_path := ps\<rparr> else w3);
                          w5 = (if module_name \<in> sys_modules w4
                                then w4\<lparr>sys_modules := sys_modules w4 - {module_name}\<rparr>
                                else w4)
                      in (Some agent_module, w5)))))"

definition save_agent_code ::
  "'e collaborators \<Rightarrow> string \<Rightarrow> string \<Rightarrow> string \<Rightarrow> 'e world \<Rightarrow> 'e world" where
  "save_agent_code X folder filename code w =
     w\<lparr>files := (files w)(path_join X folder filename \<mapsto> code)\<rparr>"

section \<open>Archive and parent selection (evolution\_loop.select\_parents)\<close>

text \<open>
  An archive entry is the dictionary with the keys \<^verbatim>\<open>id\<close>, \<^verbatim>\<open>path\<close>, \<^verbatim>\<open>score\<close>,
  \<^verbatim>\<open>children_count\<close> and \<^verbatim>\<open>parent_id\<close>.  Scores and weights are Python floats; they are
  read as real numbers, and the arithmetic on them as exact.  The archive is a list of
  references to its entries, and the selected parents are such references too (the loop
  later updates \<^verbatim>\<open>children_count\<close> through them): a reference is the position of the
  entry in the archive, which only ever grows at its end.  \<^verbatim>\<open>children_count\<close> and the
  number \<open>k\<close> of parents to draw are counts, hence natural numbers.
\<close>

record agent_record =
  agent_id :: string
  path :: string
  score :: real
  children_count :: nat
  parent_id :: "string option"

definition weight :: "real \<Rightarrow> real \<Rightarrow> agent_record \<Rightarrow> real" where
  "weight sigmoid_lambda sigmoid_alpha0 agent =
     (let alpha_i = score agent;
          n_i = children_count agent;
          s_i = 1 / (1 + exp (- sigmoid_lambda * (alpha_i - sigmoid_alpha0)));
          h_i = 1 / (1 + real n_i)
      in s_i * h_i)"

definition selection_probabilities :: "real list \<Rightarrow> real list" where
  "selection_probabilities weights =
     (let total_weight = sum_list weights in
      if total_weight = 0
      then map (\<lambda>one. one / real (length weights)) (replicate (length weights) 1)
      else map (\<lambda>w_i. w_i / total_weight) weights)"

definition select_parents ::
  "'e collaborators \<Rightarrow> agent_record list \<Rightarrow> nat \<Rightarrow> real \<Rightarrow> real \<Rightarrow> 'e world
     \<Rightarrow> nat list \<times> 'e world" where
  "select_parents X archive k sigmoid_lambda sigmoid_alpha0 w =
     (let eligible_set = filter (\<lambda>i. score (archive ! i) < 1) [0..<length archive] in
      if eligible_set = [] \<and> archive = [] then ([], w)
      else
        (let eligible_set = (if eligible_set = [] then [0..<length archive] else eligible_set);
             weights = map (\<lambda>i. weight sigmoid_lambda sigmoid_alpha0 (archive ! i)) eligible_set;
             agents_in_set = eligible_set;
             probabilities = selection_probabilities weights
         in random_choice X agents_in_set k probabilities w))"

text \<open>The logistic function of the specification, for stating the weight.\<close>

definition sigmoid :: "real \<Rightarrow> real" where
  "sigmoid x = 1 / (1 + exp (- x))"

section \<open>Evolution loop (evolution\_loop.run\_dgm\_loop)\<close>

record dgm_params =
  num_parents_to_select_k :: nat
  sigmoid_lambda :: real
  sigmoid_alpha0 :: real
  max_failures_per_child :: int
  num_successes_to_send :: int

record config =
  train_data :: "sample list"
  validation_data :: "sample list"
  start_agent_path :: string
  agent_folder :: string
  num_iterations :: int
  task_model :: string
  meta_model :: string
  params :: dgm_params

text \<open>The loop's own variables, and the world they are used in.\<close>

record 'e loop_state =
  archive :: "agent_record list"
  agent_version_counter :: nat
  world :: "'e world"

text \<open>\<^verbatim>\<open>str(n)\<close> for a version counter, and the slice \<^verbatim>\<open>xs[:n]\<close>.\<close>

fun str_nat :: "nat \<Rightarrow> string" where
  "str_nat n =
     (if n < 10 then [''0123456789'' ! n]
      else str_nat (n div 10) @ [''0123456789'' ! (n mod 10)])"

declare str_nat.simps [simp del]

definition py_prefix :: "int \<Rightarrow> 'a list \<Rightarrow> 'a list" where
  "py_prefix n xs = (if 0 \<le> n then take (nat n) xs else take (length xs - nat (- n)) xs)"

text \<open>
  The body of the loop over the selected parents, in two parts.  The first (up to the
  check that the developer agent produced code) reloads the parent, mines its failures,
  reads its source and asks the developer agent; it yields the parent's source and the
  proposal when there is one.  Each \<^verbatim>\<open>continue\<close> of the source is a \<^term>\<open>None\<close>.
\<close>

definition request_mutation ::
  "'e collaborators \<Rightarrow> config \<Rightarrow> agent_record \<Rightarrow> 'e world \<Rightarrow> (string \<times> string) option \<times> 'e world" where
  "request_mutation X cfg parent_agent w =
     (case load_agent_from_file X (path parent_agent) (agent_id parent_agent) w of
        (None, w1) \<Rightarrow> (None, w1)
      | (Some parent_module, w1) \<Rightarrow>
          (case find_failures_on_train (dataset_shuffle X) (Some parent_module) (train_data cfg)
                  (max_failures_per_child (params cfg)) w1 of
             ((failures, successes), w2) \<Rightarrow>
               if failures = [] then (None, w2)
               else
                 (let success_examples_to_send =
                        py_prefix (num_successes_to_send (params cfg)) successes
                  in case files w2 (path parent_agent) of
                       None \<Rightarrow> (None, w2)
                     | Some parent_code \<Rightarrow>
                         (case call_developer_agent X parent_code success_examples_to_send
                                 failures (agent_id parent_agent) (task_model cfg)
                                 (meta_model cfg) w2 of
                            (None, w3) \<Rightarrow> (None, w3)
                          | (Some new_code, w3) \<Rightarrow>
                              if new_code = [] then (None, w3)
                              else (Some (parent_code, new_code), w3)))))"

text \<open>
  The second part takes the next version identifier and runs the proposal through the
  duplicate check and the model guard; an accepted proposal is saved, loaded and, when
  it is functional, scored and archived, the parent's \<^verbatim>\<open>children_count\<close> being raised
  through the reference \<open>p\<close>; otherwise its file is removed.
\<close>

definition evaluate_child ::
  "'e collaborators \<Rightarrow> config \<Rightarrow> nat \<Rightarrow> string \<Rightarrow> string \<Rightarrow> 'e loop_state \<Rightarrow> 'e loop_state" where
  "evaluate_child X cfg p parent_code new_code st =
     (let parent_agent = archive st ! p;
          st1 = st\<lparr>agent_version_counter := agent_version_counter st + 1\<rparr>;
          child_id = ''v'' @ str_nat (agent_version_counter st1)
      in if strip new_code = strip parent_code then st1
         else if \<not> validate_agent_model_usage new_code (task_model cfg) then st1
         else
           (let child_filename = ''math_agent_'' @ child_id @ ''.py'';
                child_path = path_join X (agent_folder cfg) child_filename;
                w1 = save_agent_code X (agent_folder cfg) child_filename new_code (world st1)
            in case load_agent_from_file X child_path child_id w1 of
                 (child_module, w2) \<Rightarrow>
                   (let not_functional =
                          st1\<lparr>world := w2\<lparr>files := (files w2)(child_path := None)\<rparr>\<rparr>
                    in case child_module of
                         None \<Rightarrow> not_functional
                       | Some m \<Rightarrow>
                           (case run_agent m of
                              None \<Rightarrow> not_functional
                            | Some agent_runner \<Rightarrow>
                                (let counted =
                                       (archive st1)
                                         [p := parent_agent\<lparr>children_count :=
                                                 children_count parent_agent + 1\<rparr>]
                                 in case evaluate_agent_on_dataset child_module
                                           (validation_data cfg) w2 of
                                      (child_score, w3) \<Rightarrow>
                                        st1\<lparr>archive := counted @
                                               [\<lparr>agent_id = child_id, path = child_path,
                                                 score = child_score, children_count = 0,
                                                 parent_id = Some (agent_id parent_agent)\<rparr>],
                                             world := w3\<rparr>)))))"

definition process_parent ::
  "'e collaborators \<Rightarrow> config \<Rightarrow> 'e loop_state \<Rightarrow> nat \<Rightarrow> 'e loop_state" where
  "process_parent X cfg st p =
     (case request_mutation X cfg (archive st ! p) (world st) of
        (None, w) \<Rightarrow> st\<lparr>world := w\<rparr>
      | (Some (parent_code, new_code), w) \<Rightarrow>
          evaluate_child X cfg p parent_code new_code (st\<lparr>world := w\<rparr>))"

text \<open>
  The iterations: select the parents, stop when there is none, else process each in
  turn.  The first argument counts the iterations that remain.
\<close>

fun dgm_iterations ::
  "'e collaborators \<Rightarrow> config \<Rightarrow> nat \<Rightarrow> 'e loop_state \<Rightarrow> 'e loop_state" where
  "dgm_iterations X cfg 0 st = st"
| "dgm_iterations X cfg (Suc remaining) st =
     (case select_parents X (archive st) (num_parents_to_select_k (params cfg))
             (sigmoid_lambda (params cfg)) (sigmoid_alpha0 (params cfg)) (world st) of
        (parents, w) \<Rightarrow>
          if parents = [] then st\<lparr>world := w\<rparr>
          else dgm_iterations X cfg remaining
                 (foldl (process_parent X cfg) (st\<lparr>world := w\<rparr>) parents))"

text \<open>
  The whole run gives the best record of the final archive, or nothing when the base
  agent cannot be loaded; the final state is given with it.
\<close>

definition run_dgm_loop ::
  "'e collaborators \<Rightarrow> config \<Rightarrow> 'e world \<Rightarrow> agent_record option \<times> 'e loop_state" where
  "run_dgm_loop X cfg w =
     (let agent_version_counter0 = 0;
          module_name_v0 = ''math_agent_v'' @ str_nat agent_version_counter0
      in case load_agent_from_file X (start_agent_path cfg) module_name_v0 w of
           (agent_module_v0, w1) \<Rightarrow>
             (let fatal = (None, \<lparr>archive = [], agent_version_counter = agent_version_counter0,
                                   world = w1\<rparr>)
              in case agent_module_v0 of
                   None \<Rightarrow> fatal
                 | Some m \<Rightarrow>
                     (case run_agent m of
                        None \<Rightarrow> fatal
                      | Some agent_runner \<Rightarrow>
                          (case evaluate_agent_on_dataset agent_module_v0 (validation_data cfg) w1 of
                             (initial_score, w2) \<Rightarrow>
                               (let g0 = \<lparr>agent_id = ''v'' @ str_nat agent_version_counter0,
                                          path = start_agent_path cfg, score = initial_score,
                                          children_count = 0, parent_id = None\<rparr>;
                                    st = dgm_iterations X cfg (nat (num_iterations cfg))
                                           \<lparr>archive = [g0],
                                            agent_version_counter = agent_version_counter0,
                                            world = w2\<rparr>
                                in case sort_key (\<lambda>x. - score x) (archive st) of
                                     [] \<Rightarrow> (None, st)
                                   | best # others \<Rightarrow> (Some best, st))))))"

text \<open>
  For stating what a run keeps of its archive.  A record is kept when its identifier,
  path, score and parent are unchanged and its \<^verbatim>\<open>children_count\<close> has not dropped; an
  archive extends an earlier one when it keeps every record of it at its position.
  Identifiers are in order when those of the archive are pairwise different and each is
  \<^verbatim>\<open>v\<close> followed by a number that the version counter has reached.
\<close>

definition record_kept :: "agent_record \<Rightarrow> agent_record \<Rightarrow> bool" where
  "record_kept old new =
     (agent_id new = agent_id old \<and> path new = path old \<and> score new = score old
      \<and> parent_id new = parent_id old \<and> children_count old \<le> children_count new)"

definition archive_extends :: "agent_record list \<Rightarrow> agent_record list \<Rightarrow> bool" where
  "archive_extends old new =
     (length old \<le> length new \<and> (\<forall>i < length old. record_kept (old ! i) (new ! i)))"

definition ids_assigned :: "'e loop_state \<Rightarrow> bool" where
  "ids_assigned st =
     (distinct (map agent_id (archive st))
      \<and> (\<forall>r \<in> set (archive st). \<exists>n \<le> agent_version_counter st. agent_id r = ''v'' @ str_nat n))"

text \<open>
  The number a string of decimal digits stands for, which reads \<^const>\<open>str_nat\<close> back; and
  what accepting a child does to the archive: the parent at position \<open>p\<close> has one child
  more, and one record with the identifier of the given version stands at the end.
\<close>

definition decimal_value :: "string \<Rightarrow> nat" where
  "decimal_value s = foldl (\<lambda>a c. 10 * a + (of_char c - 48)) 0 s"

definition child_added :: "nat \<Rightarrow> nat \<Rightarrow> agent_record list \<Rightarrow> agent_record list \<Rightarrow> bool" where
  "child_added p version old new =
     (\<exists>child. new = old[p := (old ! p)\<lparr>children_count := children_count (old ! p) + 1\<rparr>] @ [child]
        \<and> agent_id child = ''v'' @ str_nat version)"

section \<open>A small world for trying the loop\<close>

text \<open>
  Two agent sources are told apart by their text: \<^verbatim>\<open>broken\<close> raises when it is
  executed, \<^verbatim>\<open>no runner\<close> loads without \<^verbatim>\<open>run_agent\<close>; every other source loads with a
  \<^verbatim>\<open>run_agent\<close> that answers \<^verbatim>\<open>2+2\<close> rightly and raises on any other question.  The
  developer agent always proposes the source \<^verbatim>\<open>broken\<close>.
\<close>

definition seed_runner :: "unit world runner" where
  "seed_runner q w =
     (if q = ''2+2'' then (Returned ''#### 4'', w) else (Raised ''ZeroDivisionError'', w))"

definition demo_exec ::
  "string \<Rightarrow> string \<Rightarrow> unit world \<Rightarrow> (string + unit world agent_module) \<times> unit world" where
  "demo_exec abs_filepath module_name w =
     (case files w abs_filepath of
        None \<Rightarrow> (Inl ''FileNotFoundError'', w)
      | Some code \<Rightarrow>
          if code = ''broken'' then (Inl ''SyntaxError'', w)
          else if code = ''no runner'' then (Inr (Agent_module None), w)
          else (Inr (Agent_module (Some seed_runner)), w))"

definition demo_collaborators :: "unit collaborators" where
  "demo_collaborators =
     \<lparr>abspath = (\<lambda>p. p),
      dirname = (\<lambda>p. ''agents''),
      path_join = (\<lambda>a b. a @ ''/'' @ b),
      has_loader = (\<lambda>p. True),
      exec_module = demo_exec,
      random_choice = (\<lambda>a k p w. (replicate k (hd a), w)),
      dataset_shuffle = (\<lambda>ds w. (ds, w)),
      call_developer_agent = (\<lambda>previous_code success_examples failed_examples current_version_id
                                task_model meta_model w. (Some ''broken'', w))\<rparr>"

definition demo_world :: "unit world" where
  "demo_world =
     \<lparr>files = [''agents/math_agent_v0.py'' \<mapsto> ''seed'', ''agents/idle.py'' \<mapsto> ''no runner''],
      sys_path = [''/usr/lib/python3''],
      sys_modules = {},
      env = ()\<rparr>"

definition demo_config :: config where
  "demo_config =
     \<lparr>train_data = [\<lparr>question = ''1/0'', answer = ''#### 7''\<rparr>,
                    \<lparr>question = ''2+2'', answer = ''#### 4''\<rparr>],
      validation_data = [\<lparr>question = ''2+2'', answer = ''#### 4''\<rparr>],
      start_agent_path = ''agents/math_agent_v0.py'',
      agent_folder = ''agents'',
      num_iterations = 1,
      task_model = ''gpt-4o-mini'',
      meta_model = ''gpt-4o'',
      params = \<lparr>num_parents_to_select_k = 1, sigmoid_lambda = 30, sigmoid_alpha0 = 1 / 2,
                 max_failures_per_child = 5, num_successes_to_send = 3\<rparr>\<rparr>"

definition demo_seed :: agent_record where
  "demo_seed =
     \<lparr>agent_id = ''v0'', path = ''agents/math_agent_v0.py'', score = 1 / 5,
      children_count = 0, parent_id = None\<rparr>"

definition demo_state :: "unit loop_state" where
  "demo_state = \<lparr>archive = [demo_seed], agent_version_counter = 0, world = demo_world\<rparr>"

definition demo_idle :: agent_record where
  "demo_idle =
     \<lparr>agent_id = ''v0'', path = ''agents/idle.py'', score = 0,
      children_count = 0, parent_id = None\<rparr>"

definition improving_collaborators :: "unit collaborators" where
  \<comment> \<open>the same world with a developer agent that proposes a working source\<close>
  "improving_collaborators =
     demo_collaborators
       \<lparr>call_developer_agent :=
          (\<lambda>previous_code success_examples failed_examples current_version_id
              task_model meta_model w. (Some ''improved'', w))\<rparr>"

section \<open>Properties of answer normalization\<close>

lemma findall_groups:
  "(\<And>t g n. m t = Some (g, n) \<Longrightarrow> P g) \<Longrightarrow> \<forall>g \<in> set (findall m s). P g"
proof (induction m s rule: findall.induct)
  case (1 m)
  show ?case by simp
next
  case (2 m c cs)
  show ?case
  proof (cases "m (c # cs)")
    case None
    with 2 show ?thesis by simp
  next
    case (Some p)
    obtain g n where p: "p = (g, n)" by (cases p)
    from 2(3) Some p have "P g" by simp
    with 2 Some p show ?thesis by simp
  qed
qed

lemma findall_groups_subset:
  "(\<And>t g n. m t = Some (g, n) \<Longrightarrow> set g \<subseteq> set t) \<Longrightarrow> \<forall>g \<in> set (findall m s). set g \<subseteq> set s"
proof (induction m s rule: findall.induct)
  case (1 m)
  show ?case by simp
next
  case (2 m c cs)
  show ?case
  proof (cases "m (c # cs)")
    case None
    with 2 show ?thesis by auto
  next
    case (Some p)
    obtain g n where p: "p = (g, n)" by (cases p)
    from 2(3) Some p have "set g \<subseteq> set (c # cs)" by blast
    moreover have "set (drop (n - 1) cs) \<subseteq> set cs" by (rule set_drop_subset)
    moreover have "\<forall>h \<in> set (findall m (drop (n - 1) cs)). set h \<subseteq> set (drop (n - 1) cs)"
      using 2(2) [OF Some p [symmetric]] 2(3) by blast
    ultimately have "\<forall>h \<in> set (g # findall m (drop (n - 1) cs)). set h \<subseteq> set (c # cs)"
      by auto
    then show ?thesis using Some p by simp
  qed
qed

lemma match_marker_group:
  "match_marker t = Some (g, n) \<Longrightarrow> g \<noteq> [] \<and> (\<forall>c \<in> set g. is_num_char c) \<and> set g \<subseteq> set t"
  by (auto simp: match_marker_def Let_def split: if_splits dest: set_takeWhileD in_set_dropD)

lemma match_number_group:
  "match_number t = Some (g, n) \<Longrightarrow> g \<noteq> [] \<and> (\<forall>c \<in> set g. is_num_char c) \<and> set g \<subseteq> set t"
  by (auto simp: match_number_def Let_def split: if_splits dest: set_takeWhileD)

lemma digit_not_space: "is_digit c \<Longrightarrow> \<not> is_space c"
  by (auto simp: is_digit_def is_space_def Let_def)

lemma num_char_not_space: "is_num_char c \<Longrightarrow> \<not> is_space c"
  by (auto simp: is_num_char_def is_digit_def is_space_def Let_def)

lemma strip_no_space: "\<forall>c \<in> set s. \<not> is_space c \<Longrightarrow> strip s = s"
proof -
  assume a: "\<forall>c \<in> set s. \<not> is_space c"
  then have "dropWhile is_space s = s" by (cases s) auto
  moreover from a have "dropWhile is_space (rev s) = rev s" by (cases "rev s") (auto simp: rev_eq_Cons_iff)
  ultimately show ?thesis by (simp add: strip_def)
qed

lemma rev_dropWhile_last:
  "rev (dropWhile P (rev s)) = [] \<or> \<not> P (last (rev (dropWhile P (rev s))))"
proof (cases "dropWhile P (rev s)")
  case Nil
  then show ?thesis by simp
next
  case (Cons a as)
  then have "\<not> P a" by (metis hd_dropWhile list.sel(1) list.distinct(1))
  with Cons show ?thesis by simp
qed

lemma normalize_number_normal:
  assumes "\<forall>c \<in> set g. is_num_char c"
  shows "normal_form (normalize_number g)"
proof -
  let ?f = "remove_char (CHR '','') g"
  have f: "\<forall>c \<in> set ?f. is_digit c \<or> c = CHR ''.''"
    using assms by (auto simp: remove_char_def is_num_char_def)
  then have "\<forall>c \<in> set ?f. \<not> is_space c"
    by (auto simp: is_digit_def is_space_def Let_def)
  then have s: "strip ?f = ?f" by (rule strip_no_space)
  let ?r = "rstrip_chars ''.'' ?f"
  have sub: "set ?r \<subseteq> set ?f"
    by (auto simp: rstrip_chars_def dest: set_dropWhileD)
  have "?r = [] \<or> last ?r \<noteq> CHR ''.''"
    using rev_dropWhile_last [of "\<lambda>c. c \<in> set ''.''" ?f] by (simp add: rstrip_chars_def)
  moreover have "?r \<noteq> [] \<Longrightarrow> last ?r \<in> set ?f" using sub last_in_set by blast
  ultimately have "?r = [] \<or> is_digit (last ?r)" using f by blast
  with f sub s show ?thesis by (auto simp: normal_form_def normalize_number_def)
qed

lemma normalize_number_fixed:
  assumes "normal_form r"
  shows "normalize_number r = r"
proof -
  have nc: "remove_char (CHR '','') r = r"
    using assms by (auto simp: remove_char_def normal_form_def is_digit_def Let_def filter_id_conv)
  have "\<forall>c \<in> set r. \<not> is_space c"
    using assms by (auto simp: normal_form_def is_digit_def is_space_def Let_def)
  then have s: "strip r = r" by (rule strip_no_space)
  have "rstrip_chars ''.'' r = r"
  proof (cases "rev r")
    case Nil
    then show ?thesis by (simp add: rstrip_chars_def)
  next
    case (Cons a as)
    then have "last r = a" "r \<noteq> []" by (auto simp: rev_eq_Cons_iff)
    with assms have "a \<noteq> CHR ''.''" by (auto simp: normal_form_def is_digit_def Let_def)
    with Cons have "dropWhile (\<lambda>c. c \<in> set ''.'') (rev r) = rev r" by simp
    then show ?thesis by (simp add: rstrip_chars_def)
  qed
  with nc s show ?thesis by (simp add: normalize_number_def)
qed

lemma findall_marker_no_hash:
  "CHR ''#'' \<notin> set s \<Longrightarrow> findall match_marker s = []"
proof (induction s)
  case Nil
  show ?case by simp
next
  case (Cons c cs)
  then have "match_marker (c # cs) = None" by (auto simp: match_marker_def)
  with Cons show ?case by simp
qed

lemma findall_number_all_num:
  assumes "r \<noteq> []" "\<forall>c \<in> set r. is_num_char c"
  shows "findall match_number r = [r]"
proof -
  obtain c cs where r: "r = c # cs" using assms(1) by (cases r) auto
  have "takeWhile is_num_char r = r" using assms(2) by (simp add: takeWhile_eq_all_conv)
  then have "match_number (c # cs) = Some (r, length r)" using r by (simp add: match_number_def)
  then show ?thesis using r by simp
qed

lemma extract_final_answer_normal: "normal_form (extract_final_answer s)"
proof -
  have a: "\<forall>g \<in> set (findall match_marker s). \<forall>c \<in> set g. is_num_char c"
    by (rule findall_groups) (use match_marker_group in blast)
  have b: "\<forall>g \<in> set (findall match_number s). \<forall>c \<in> set g. is_num_char c"
    by (rule findall_groups) (use match_number_group in blast)
  have e: "normal_form []" by (simp add: normal_form_def)
  have "ms \<noteq> [] \<Longrightarrow> \<forall>g \<in> set ms. \<forall>c \<in> set g. is_num_char c
    \<Longrightarrow> normal_form (normalize_number (last ms))" for ms
    using last_in_set [of ms] by (intro normalize_number_normal) blast
  with a b e show ?thesis
    by (simp add: extract_final_answer_def Let_def)
qed

lemma extract_final_answer_fixed:
  assumes "normal_form r"
  shows "extract_final_answer r = r"
proof (cases "r = []")
  case True
  then show ?thesis by (simp add: extract_final_answer_def)
next
  case False
  have "CHR ''#'' \<notin> set r" using assms by (auto simp: normal_form_def is_digit_def Let_def)
  then have m: "findall match_marker r = []" by (rule findall_marker_no_hash)
  have "\<forall>c \<in> set r. is_num_char c" using assms by (auto simp: normal_form_def is_num_char_def)
  with False have "findall match_number r = [r]" by (rule findall_number_all_num)
  with m assms show ?thesis by (simp add: extract_final_answer_def normalize_number_fixed)
qed

lemma normalize_number_no_digit:
  assumes "\<forall>c \<in> set g. is_num_char c" "\<forall>c \<in> set g. \<not> is_digit c"
  shows "normalize_number g = []"
proof -
  have "normal_form (normalize_number g)" using assms(1) by (rule normalize_number_normal)
  moreover have "set (normalize_number g) \<subseteq> set g"
    by (auto simp: normalize_number_def rstrip_chars_def strip_def remove_char_def dest!: set_dropWhileD)
  ultimately show ?thesis using assms(2)
    by (cases "normalize_number g" rule: rev_cases) (auto simp: normal_form_def)
qed

lemma extract_final_answer_no_digit:
  assumes "\<forall>c \<in> set s. \<not> is_digit c"
  shows "extract_final_answer s = []"
proof -
  have a: "\<forall>g \<in> set (findall match_marker s). (\<forall>c \<in> set g. is_num_char c) \<and> set g \<subseteq> set s"
  proof -
    have "\<forall>g \<in> set (findall match_marker s). \<forall>c \<in> set g. is_num_char c"
      by (rule findall_groups) (use match_marker_group in blast)
    moreover have "\<forall>g \<in> set (findall match_marker s). set g \<subseteq> set s"
      by (rule findall_groups_subset) (use match_marker_group in blast)
    ultimately show ?thesis by blast
  qed
  have b: "\<forall>g \<in> set (findall match_number s). (\<forall>c \<in> set g. is_num_char c) \<and> set g \<subseteq> set s"
  proof -
    have "\<forall>g \<in> set (findall match_number s). \<forall>c \<in> set g. is_num_char c"
      by (rule findall_groups) (use match_number_group in blast)
    moreover have "\<forall>g \<in> set (findall match_number s). set g \<subseteq> set s"
      by (rule findall_groups_subset) (use match_number_group in blast)
    ultimately show ?thesis by blast
  qed
  have "ms \<noteq> [] \<Longrightarrow> \<forall>g \<in> set ms. (\<forall>c \<in> set g. is_num_char c) \<and> set g \<subseteq> set s
    \<Longrightarrow> normalize_number (last ms) = []" for ms
    using last_in_set [of ms] assms by (intro normalize_number_no_digit) blast+
  with a b show ?thesis by (simp add: extract_final_answer_def Let_def)
qed

lemmas efa_eval = extract_final_answer_def match_marker_def match_number_def normalize_number_def strip_def rstrip_chars_def remove_char_def is_num_char_def is_digit_def is_space_def

text \<open>
  Claim C6. Answer normalization is idempotent: normalizing a normalized value gives it
  back unchanged.  On the examples of the specification, \<^verbatim>\<open>"1,234."\<close> becomes
  \<^verbatim>\<open>"1234"\<close>, \<^verbatim>\<open>"7.5"\<close> stays \<^verbatim>\<open>"7.5"\<close>, and every text without a digit is
  normalized to the empty string.
\<close>

theorem extract_final_answer_idempotent:
  "extract_final_answer (extract_final_answer s) = extract_final_answer s
   \<and> extract_final_answer ''1,234.'' = ''1234''
   \<and> extract_final_answer ''7.5'' = ''7.5''
   \<and> ((\<forall>c \<in> set t. \<not> is_digit c) \<longrightarrow> extract_final_answer t = '''')"
proof (intro conjI impI)
  show "extract_final_answer (extract_final_answer s) = extract_final_answer s"
    by (rule extract_final_answer_fixed) (rule extract_final_answer_normal)
  show "extract_final_answer ''1,234.'' = ''1234''" by (simp add: efa_eval)
  show "extract_final_answer ''7.5'' = ''7.5''" by (simp add: efa_eval)
  show "extract_final_answer t = ''''" if "\<forall>c \<in> set t. \<not> is_digit c"
    using that by (rule extract_final_answer_no_digit)
qed

theorem extract_final_answer_idempotent_witness:
  "extract_final_answer (extract_final_answer ''Total: #### 1,234.'') = extract_final_answer ''Total: #### 1,234.''
   \<and> extract_final_answer ''Total: #### 1,234.'' = ''1234''
   \<and> extract_final_answer ''no answer, sorry.'' = ''''"
proof -
  have "\<forall>c \<in> set ''no answer, sorry.''. \<not> is_digit c" by (simp add: is_digit_def)
  with extract_final_answer_idempotent [of "''Total: #### 1,234.''" "''no answer, sorry.''"]
  show ?thesis by (simp add: efa_eval)
qed

section \<open>Properties of the evaluation harness\<close>

lemma evaluation_loop_count:
  "fst (evaluation_loop run ds n w) = n + length (filter is_success (zip ds (run_results run ds w)))"
proof (induction ds arbitrary: n w)
  case Nil
  show ?case by simp
next
  case (Cons s ds)
  obtain r w' where rw: "run (question s) w = (r, w')" by (cases "run (question s) w")
  show ?case
  proof (cases r)
    case (Returned out)
    with rw Cons show ?thesis by simp
  next
    case (Raised e)
    with rw Cons show ?thesis by simp
  qed
qed

lemma length_run_results: "length (run_results run ds w) = length ds"
  by (induction ds arbitrary: w) (auto split: prod.splits)

lemma mining_loop_char:
  "mining_loop run N ds fs ss w = ((F, S, rest), w') \<Longrightarrow>
     \<exists>p \<le> length ds.
       rest = drop p ds
       \<and> F = fs @ failures_among (take p (zip ds (run_results run ds w)))
       \<and> S = ss @ successes_among (take p (zip ds (run_results run ds w)))
       \<and> (p < length ds \<longrightarrow> N \<le> int (length F))
       \<and> (\<forall>q < p. int (length (fs @ failures_among (take q (zip ds (run_results run ds w))))) < N)"
proof (induction ds arbitrary: fs ss w)
  case Nil
  then show ?case by (simp add: failures_among_def successes_among_def)
next
  case (Cons s ds)
  show ?case
  proof (cases "N \<le> int (length fs)")
    case True
    with Cons.prems have "F = fs" "S = ss" "rest = s # ds" by simp_all
    with True show ?thesis
      by (intro exI [of _ 0]) (simp add: failures_among_def successes_among_def)
  next
    case False
    obtain r v where rv: "run (question s) w = (r, v)" by (cases "run (question s) w")
    define fs' where "fs' = fs @ failures_among [(s, r)]"
    define ss' where "ss' = ss @ successes_among [(s, r)]"
    have step: "mining_loop run N (s # ds) fs ss w = mining_loop run N ds fs' ss' v"
      using False rv
      by (cases r) (simp_all add: fs'_def ss'_def failures_among_def successes_among_def)
    with Cons.prems have "mining_loop run N ds fs' ss' v = ((F, S, rest), w')" by simp
    from Cons.IH [OF this] obtain p where p: "p \<le> length ds" "rest = drop p ds"
      "F = fs' @ failures_among (take p (zip ds (run_results run ds v)))"
      "S = ss' @ successes_among (take p (zip ds (run_results run ds v)))"
      "p < length ds \<longrightarrow> N \<le> int (length F)"
      "\<forall>q < p. int (length (fs' @ failures_among (take q (zip ds (run_results run ds v))))) < N"
      by blast
    have z: "zip (s # ds) (run_results run (s # ds) w) = (s, r) # zip ds (run_results run ds v)"
      using rv by simp
    have "\<forall>q < Suc p. int (length (fs @ failures_among (take q (zip (s # ds) (run_results run (s # ds) w))))) < N"
    proof (intro allI impI)
      fix q assume q: "q < Suc p"
      show "int (length (fs @ failures_among (take q (zip (s # ds) (run_results run (s # ds) w))))) < N"
      proof (cases q)
        case 0
        with False show ?thesis by (simp add: failures_among_def)
      next
        case (Suc q')
        with q p(6) have "int (length (fs' @ failures_among (take q' (zip ds (run_results run ds v))))) < N"
          by simp
        with Suc show ?thesis unfolding z by (cases "is_success (s, r)") (simp_all add: fs'_def failures_among_def)
      qed
    qed
    with p show ?thesis unfolding z
      by (intro exI [of _ "Suc p"]) (simp add: fs'_def ss'_def failures_among_def successes_among_def)
  qed
qed


lemma find_failures_on_train_char:
  assumes "run_agent m = Some run"
    and "shuffle ds w = (sh, w1)"
    and "find_failures_on_train shuffle (Some m) ds N w = ((F, S), w')"
  shows "\<exists>p \<le> length sh.
       samples_run run N sh w1 = p
       \<and> F = failures_among (take p (zip sh (run_results run sh w1)))
       \<and> S = successes_among (take p (zip sh (run_results run sh w1)))
       \<and> (p < length sh \<longrightarrow> N \<le> int (length F))
       \<and> (\<forall>q < p. int (length (failures_among (take q (zip sh (run_results run sh w1))))) < N)"
proof -
  obtain F' S' rest v where ml: "mining_loop run N sh [] [] w1 = ((F', S', rest), v)"
    by (cases "mining_loop run N sh [] [] w1") auto
  with assms have FS: "F' = F" "S' = S"
    by (simp_all add: find_failures_on_train_def)
  from mining_loop_char [OF ml] obtain p where p: "p \<le> length sh" "rest = drop p sh"
      "F' = [] @ failures_among (take p (zip sh (run_results run sh w1)))"
      "S' = [] @ successes_among (take p (zip sh (run_results run sh w1)))"
      "p < length sh \<longrightarrow> N \<le> int (length F')"
      "\<forall>q < p. int (length ([] @ failures_among (take q (zip sh (run_results run sh w1))))) < N"
    by blast
  have "samples_run run N sh w1 = p"
    using ml p(1,2) by (simp add: samples_run_def)
  with p FS show ?thesis by auto
qed






text \<open>
  Claim C2. \<^verbatim>\<open>score\<close> (evaluate\_agent\_on\_dataset) counts a sample as a success exactly
  when the normalized output of its run equals the normalized reference answer and that
  reference is not empty, and returns the number of successes divided by the size of the
  split.  It returns 0 for an empty split and for a candidate that is absent or has no
  \<^verbatim>\<open>run_agent\<close>.  A run that raises is a non-success, and every sample of the split is
  run, also those after one that raised.
\<close>

theorem evaluate_agent_on_dataset_accuracy:
  "evaluate_agent_on_dataset None ds w = (0, w)
   \<and> (run_agent m = None \<longrightarrow> evaluate_agent_on_dataset (Some m) ds w = (0, w))
   \<and> (run_agent m = Some run \<longrightarrow>
        fst (evaluate_agent_on_dataset (Some m) ds w)
          = (if ds = [] then 0
             else real (length (filter is_success (zip ds (run_results run ds w)))) / real (length ds))
        \<and> length (run_results run ds w) = length ds)
   \<and> \<not> is_success (smp, Raised e)
   \<and> (is_success (smp, Returned out) \<longleftrightarrow>
        extract_final_answer out = extract_final_answer (answer smp)
        \<and> extract_final_answer (answer smp) \<noteq> '''')"
proof (intro conjI impI)
  show "evaluate_agent_on_dataset None ds w = (0, w)"
    by (simp add: evaluate_agent_on_dataset_def)
  show "evaluate_agent_on_dataset (Some m) ds w = (0, w)" if "run_agent m = None"
    using that by (simp add: evaluate_agent_on_dataset_def)
  show "fst (evaluate_agent_on_dataset (Some m) ds w)
          = (if ds = [] then 0
             else real (length (filter is_success (zip ds (run_results run ds w)))) / real (length ds))"
    if "run_agent m = Some run"
    using that evaluation_loop_count [of run ds 0 w]
    by (auto simp: evaluate_agent_on_dataset_def split: prod.splits)
  show "length (run_results run ds w) = length ds" by (rule length_run_results)
  show "\<not> is_success (smp, Raised e)" by simp
  show "is_success (smp, Returned out) \<longleftrightarrow>
        extract_final_answer out = extract_final_answer (answer smp)
        \<and> extract_final_answer (answer smp) \<noteq> ''''" by simp
qed

lemma demo_results:
  "run_results demo_runner demo_split 0
     = [Raised ''ZeroDivisionError'', Returned ''so the answer is #### 4.'', Returned ''3'']"
  by (simp add: demo_split_def demo_runner_def)

lemma demo_success:
  "filter is_success (zip demo_split (run_results demo_runner demo_split 0))
     = [(\<lparr>question = ''2+2'', answer = ''2+2 is 4 #### 4''\<rparr>, Returned ''so the answer is #### 4.'')]"
  unfolding demo_results by (simp add: demo_split_def efa_eval)

theorem evaluate_agent_on_dataset_accuracy_witness:
  "fst (evaluate_agent_on_dataset (Some (Agent_module (Some demo_runner))) demo_split 0) = 1 / 3
   \<and> evaluate_agent_on_dataset (Some (Agent_module None)) demo_split (0 :: nat) = (0, 0)"
proof -
  have "demo_split \<noteq> []" "length demo_split = 3" by (simp_all add: demo_split_def)
  then show ?thesis
    using evaluate_agent_on_dataset_accuracy
            [of demo_split 0 "Agent_module (Some demo_runner)" demo_runner]
          evaluate_agent_on_dataset_accuracy [of demo_split "0 :: nat" "Agent_module None"]
    by (simp add: demo_success)
qed







text \<open>
  Claim C9. While mining, every sample whose run raises is recorded in the failures
  list, with \<^verbatim>\<open>Runtime Error:\<close> and the traceback as the observed output of the
  candidate; the loop goes on with the remaining samples, and unless the cap on failures
  is reached it visits the whole split.
\<close>

theorem runtime_errors_are_failures:
  assumes "run_agent m = Some run"
    and "shuffle ds w = (sh, w1)"
    and "find_failures_on_train shuffle (Some m) ds N w = ((F, S), w')"
  shows "(\<forall>i < samples_run run N sh w1. \<forall>tb. run_results run sh w1 ! i = Raised tb \<longrightarrow>
            \<lparr>ex_question = question (sh ! i), correct_answer = answer (sh ! i),
             agent_output = ''Runtime Error: '' @ tb\<rparr> \<in> set F)
    \<and> (int (length F) < N \<longrightarrow> samples_run run N sh w1 = length sh)
    \<and> (\<forall>smp rest fs ss v tb v'.
          run (question smp) v = (Raised tb, v') \<and> int (length fs) < N \<longrightarrow>
          mining_loop run N (smp # rest) fs ss v
            = mining_loop run N rest
                (fs @ [\<lparr>ex_question = question smp, correct_answer = answer smp,
                        agent_output = ''Runtime Error: '' @ tb\<rparr>]) ss v')"
proof (intro conjI allI impI)
  let ?p = "samples_run run N sh w1"
  let ?Z = "zip sh (run_results run sh w1)"
  from find_failures_on_train_char [OF assms]
  have c: "?p \<le> length sh" "F = failures_among (take ?p ?Z)"
    "?p < length sh \<longrightarrow> N \<le> int (length F)"
    by auto
  show "?p = length sh" if "int (length F) < N"
    using that c(1,3) by auto
  show "\<lparr>ex_question = question (sh ! i), correct_answer = answer (sh ! i),
         agent_output = ''Runtime Error: '' @ tb\<rparr> \<in> set F"
    if i: "i < ?p" and r: "run_results run sh w1 ! i = Raised tb" for i tb
  proof -
    have lz: "length ?Z = length sh" by (simp add: length_run_results)
    with i c(1) have "take ?p ?Z ! i = (sh ! i, Raised tb)" using r
      by (simp add: length_run_results)
    moreover have "i < length (take ?p ?Z)" using i c(1) lz by simp
    ultimately have "(sh ! i, Raised tb) \<in> set (take ?p ?Z)" by (metis nth_mem)
    then have "mined_example (sh ! i, Raised tb) \<in> set F"
      unfolding c(2) failures_among_def by (simp add: image_iff) force
    then show ?thesis by simp
  qed
  show "mining_loop run N (smp # rest) fs ss v
            = mining_loop run N rest
                (fs @ [\<lparr>ex_question = question smp, correct_answer = answer smp,
                        agent_output = ''Runtime Error: '' @ tb\<rparr>]) ss v'"
    if "run (question smp) v = (Raised tb, v') \<and> int (length fs) < N" for smp rest fs ss v tb v'
    using that by simp
qed

lemma demo_split_mined:
  "find_failures_on_train demo_shuffle (Some demo_module) demo_split 5 0
     = (([\<lparr>ex_question = ''1+1'', correct_answer = ''#### 2'',
            agent_output = ''Wrong Answer: 3''\<rparr>,
          \<lparr>ex_question = ''1/0'', correct_answer = ''#### 7'',
            agent_output = ''Runtime Error: ZeroDivisionError''\<rparr>],
         [\<lparr>ex_question = ''2+2'', correct_answer = ''2+2 is 4 #### 4'',
            agent_output = ''so the answer is #### 4.''\<rparr>]), 3)"
  by (simp add: find_failures_on_train_def demo_module_def demo_shuffle_def demo_split_def
                demo_runner_def efa_eval)

theorem runtime_errors_are_failures_witness:
  "\<lparr>ex_question = ''1/0'', correct_answer = ''#### 7'',
     agent_output = ''Runtime Error: ZeroDivisionError''\<rparr>
     \<in> set (fst (fst (find_failures_on_train demo_shuffle (Some demo_module) demo_split 5 0)))
   \<and> samples_run demo_runner 5 (rev demo_split) 0 = 3"
proof -
  have a: "run_agent demo_module = Some demo_runner" by (simp add: demo_module_def)
  have b: "demo_shuffle demo_split 0 = (rev demo_split, 0)" by (simp add: demo_shuffle_def)
  note t = runtime_errors_are_failures [OF a b demo_split_mined]
  have l: "length (rev demo_split) = 3" by (simp add: demo_split_def)
  from t have "int (length [\<lparr>ex_question = ''1+1'', correct_answer = ''#### 2'',
            agent_output = ''Wrong Answer: 3''\<rparr>,
          \<lparr>ex_question = ''1/0'', correct_answer = ''#### 7'',
            agent_output = ''Runtime Error: ZeroDivisionError''\<rparr>]) < 5
     \<longrightarrow> samples_run demo_runner 5 (rev demo_split) 0 = length (rev demo_split)"
    by blast
  with l have p: "samples_run demo_runner 5 (rev demo_split) 0 = 3" by simp
  have r: "run_results demo_runner (rev demo_split) 0 ! 2 = Raised ''ZeroDivisionError''"
    "rev demo_split ! 2 = \<lparr>question = ''1/0'', answer = ''#### 7''\<rparr>"
    by (simp_all add: demo_split_def demo_runner_def)
  from t have "\<forall>i < samples_run demo_runner 5 (rev demo_split) 0. \<forall>tb.
       run_results demo_runner (rev demo_split) 0 ! i = Raised tb \<longrightarrow>
            \<lparr>ex_question = question (rev demo_split ! i), correct_answer = answer (rev demo_split ! i),
             agent_output = ''Runtime Error: '' @ tb\<rparr>
            \<in> set [\<lparr>ex_question = ''1+1'', correct_answer = ''#### 2'',
            agent_output = ''Wrong Answer: 3''\<rparr>,
          \<lparr>ex_question = ''1/0'', correct_answer = ''#### 7'',
            agent_output = ''Runtime Error: ZeroDivisionError''\<rparr>]"
    by blast
  with p r have "\<lparr>ex_question = ''1/0'', correct_answer = ''#### 7'',
     agent_output = ''Runtime Error: ZeroDivisionError''\<rparr>
     \<in> set [\<lparr>ex_question = ''1+1'', correct_answer = ''#### 2'',
            agent_output = ''Wrong Answer: 3''\<rparr>,
          \<lparr>ex_question = ''1/0'', correct_answer = ''#### 7'',
            agent_output = ''Runtime Error: ZeroDivisionError''\<rparr>]"
    by simp
  with p show ?thesis by (simp add: demo_split_mined)
qed

section \<open>The small world, evaluated\<close>

lemma demo_collaborators_fields:
  "abspath demo_collaborators = (\<lambda>p. p)"
  "dirname demo_collaborators = (\<lambda>p. ''agents'')"
  "path_join demo_collaborators = (\<lambda>a b. a @ ''/'' @ b)"
  "has_loader demo_collaborators = (\<lambda>p. True)"
  "exec_module demo_collaborators = demo_exec"
  "random_choice demo_collaborators = (\<lambda>a k p w. (replicate k (hd a), w))"
  "dataset_shuffle demo_collaborators = (\<lambda>ds w. (ds, w))"
  "call_developer_agent demo_collaborators
     = (\<lambda>previous_code success_examples failed_examples current_version_id
          task_model meta_model w. (Some ''broken'', w))"
  by (simp_all add: demo_collaborators_def)

lemma demo_config_fields:
  "train_data demo_config = [\<lparr>question = ''1/0'', answer = ''#### 7''\<rparr>,
                    \<lparr>question = ''2+2'', answer = ''#### 4''\<rparr>]"
  "validation_data demo_config = [\<lparr>question = ''2+2'', answer = ''#### 4''\<rparr>]"
  "start_agent_path demo_config = ''agents/math_agent_v0.py''"
  "agent_folder demo_config = ''agents''"
  "num_iterations demo_config = 1"
  "task_model demo_config = ''gpt-4o-mini''"
  "meta_model demo_config = ''gpt-4o''"
  "num_parents_to_select_k (params demo_config) = 1"
  "sigmoid_lambda (params demo_config) = 30"
  "sigmoid_alpha0 (params demo_config) = 1 / 2"
  "max_failures_per_child (params demo_config) = 5"
  "num_successes_to_send (params demo_config) = 3"
  by (simp_all add: demo_config_def)

lemma demo_world_fields:
  "files demo_world ''agents/math_agent_v0.py'' = Some ''seed''"
  "files demo_world ''agents/idle.py'' = Some ''no runner''"
  "files demo_world ''agents/math_agent_v1.py'' = None"
  "sys_path demo_world = [''/usr/lib/python3'']"
  "sys_modules demo_world = {}"
  by (simp_all add: demo_world_def)

lemma demo_seed_fields:
  "agent_id demo_seed = ''v0''" "path demo_seed = ''agents/math_agent_v0.py''"
  "score demo_seed = 1 / 5" "children_count demo_seed = 0" "parent_id demo_seed = None"
  by (simp_all add: demo_seed_def)

lemma demo_load_seed:
  "load_agent_from_file demo_collaborators ''agents/math_agent_v0.py'' ''v0'' demo_world
   = (Some (Agent_module (Some seed_runner)), demo_world)"
  by (simp add: load_agent_from_file_def demo_collaborators_fields demo_exec_def demo_world_fields)

lemma demo_mine_seed:
  "find_failures_on_train (dataset_shuffle demo_collaborators)
      (Some (Agent_module (Some seed_runner)))
      (train_data demo_config) (max_failures_per_child (params demo_config)) demo_world
   = (([\<lparr>ex_question = ''1/0'', correct_answer = ''#### 7'',
         agent_output = ''Runtime Error: ZeroDivisionError''\<rparr>],
       [\<lparr>ex_question = ''2+2'', correct_answer = ''#### 4'', agent_output = ''#### 4''\<rparr>]),
      demo_world)"
  by (simp add: find_failures_on_train_def demo_config_fields demo_collaborators_fields
        seed_runner_def efa_eval)

lemma demo_request:
  "request_mutation demo_collaborators demo_config demo_seed demo_world
     = (Some (''seed'', ''broken''), demo_world)"
  by (simp add: request_mutation_def demo_seed_fields demo_load_seed
      demo_collaborators_fields(8) demo_config_fields(6,7,12) demo_mine_seed demo_world_fields
      py_prefix_def)

section \<open>Properties of the validation gate\<close>

lemma upper_case_letter:
  assumes "65 \<le> (of_char c :: nat)" "(of_char c :: nat) \<le> 90"
  shows "\<not> is_space c \<and> \<not> is_quote c \<and> c \<noteq> CHR ''='' \<and> is_model_char c"
proof -
  have "\<not> is_space c" using assms by (simp add: is_space_def Let_def)
  moreover have "is_model_char c" using assms by (simp add: is_model_char_def is_word_char_def Let_def)
  moreover have "c \<noteq> CHR 0x27" "c \<noteq> CHR 0x22" "c \<noteq> CHR ''=''" using assms by auto
  ultimately show ?thesis by (simp add: is_quote_def)
qed

lemma ci_eq_cases:
  "ci_eq l c \<Longrightarrow> c = l \<or> (65 \<le> (of_char c :: nat) \<and> (of_char c :: nat) \<le> 90)"
  by (simp add: ci_eq_def) blast

lemma ci_eq_model_letter:
  assumes "ci_eq l c" "l \<in> set ''model''"
  shows "\<not> is_space c \<and> \<not> is_quote c \<and> c \<noteq> CHR ''='' \<and> is_model_char c"
proof -
  from ci_eq_cases [OF assms(1)] show ?thesis
  proof
    assume "c = l"
    with assms(2) have "c = CHR ''m'' \<or> c = CHR ''o'' \<or> c = CHR ''d'' \<or> c = CHR ''e'' \<or> c = CHR ''l''"
      by simp
    then show ?thesis
      by (elim disjE) (simp_all add: is_space_def is_quote_def is_model_char_def is_word_char_def)
  next
    assume "65 \<le> (of_char c :: nat) \<and> (of_char c :: nat) \<le> 90"
    then show ?thesis using upper_case_letter by blast
  qed
qed

lemma ci_eq_vendor_letter:
  assumes "ci_eq l c" "l \<in> set ''gpt-claude-gemini-''"
  shows "is_model_char c"
proof -
  from ci_eq_cases [OF assms(1)] show ?thesis
  proof
    assume "c = l"
    with assms(2) have "c \<in> set ''gpt-claudemin''" by auto
    then have "c = CHR ''g'' \<or> c = CHR ''p'' \<or> c = CHR ''t'' \<or> c = CHR ''-'' \<or> c = CHR ''c''
       \<or> c = CHR ''l'' \<or> c = CHR ''a'' \<or> c = CHR ''u'' \<or> c = CHR ''d'' \<or> c = CHR ''e''
       \<or> c = CHR ''m'' \<or> c = CHR ''i'' \<or> c = CHR ''n''" by simp
    then show ?thesis
      by (elim disjE) (simp_all add: is_model_char_def is_word_char_def)
  next
    assume "65 \<le> (of_char c :: nat) \<and> (of_char c :: nat) \<le> 90"
    then show ?thesis using upper_case_letter by blast
  qed
qed

lemma ci_eq_m:
  assumes "ci_eq (CHR ''m'') c"
  shows "\<not> is_space c \<and> \<not> is_quote c \<and> c \<noteq> CHR ''=''"
  using ci_eq_model_letter [OF assms] by simp

lemma is_space_not:
  assumes "is_space c"
  shows "\<not> ci_eq (CHR ''m'') c \<and> \<not> is_quote c \<and> c \<noteq> CHR ''='' \<and> \<not> is_model_char c"
proof -
  have "\<not> ci_eq (CHR ''m'') c" using assms ci_eq_m by blast
  moreover have "c \<noteq> CHR 0x27" "c \<noteq> CHR 0x22" "c \<noteq> CHR ''=''" "c \<noteq> CHR ''.''" "c \<noteq> CHR ''-''"
    using assms by (auto simp: is_space_def)
  moreover have "\<not> is_word_char c"
    using assms unfolding is_space_def is_word_char_def Let_def by arith
  ultimately show ?thesis by (simp add: is_quote_def is_model_char_def)
qed

lemma is_quote_not:
  assumes "is_quote c"
  shows "\<not> ci_eq (CHR ''m'') c \<and> c \<noteq> CHR ''='' \<and> \<not> is_space c \<and> \<not> is_model_char c"
proof -
  from assms have "c = CHR 0x27 \<or> c = CHR 0x22" by (simp add: is_quote_def)
  then show ?thesis
    by (elim disjE) (simp_all add: ci_eq_def is_space_def is_model_char_def is_word_char_def)
qed

lemma is_model_char_not:
  assumes "is_model_char c"
  shows "\<not> is_quote c \<and> c \<noteq> CHR ''='' \<and> \<not> is_space c"
proof -
  have "\<not> is_quote c" using assms is_quote_not by blast
  moreover have "\<not> is_space c" using assms is_space_not by blast
  moreover have "c \<noteq> CHR ''=''"
    using assms by (auto simp: is_model_char_def is_word_char_def)
  ultimately show ?thesis by simp
qed

lemma equals_sign_not:
  "\<not> ci_eq (CHR ''m'') (CHR ''='') \<and> \<not> is_space (CHR ''='') \<and> \<not> is_quote (CHR ''='')
   \<and> \<not> is_model_char (CHR ''='')"
  by (simp add: ci_eq_def is_space_def is_quote_def is_model_char_def is_word_char_def)

lemma ci_eq_distinct:
  "\<not> (ci_eq (CHR ''g'') c \<and> ci_eq (CHR ''c'') c)" "\<not> (ci_eq (CHR ''p'') c \<and> ci_eq (CHR ''e'') c)"
  by (auto simp: ci_eq_def)

lemma takeWhile_stop:
  "\<forall>x \<in> set xs. P x \<Longrightarrow> \<not> P y \<Longrightarrow> takeWhile P (xs @ y # ys) = xs"
  by (simp add: takeWhile_append2)

lemma dropWhile_stop:
  "\<forall>x \<in> set xs. P x \<Longrightarrow> \<not> P y \<Longrightarrow> dropWhile P (xs @ y # ys) = y # ys"
  by (simp add: dropWhile_append2)

lemma drop_takeWhile_length:
  "drop (k + length (takeWhile P (drop k xs))) xs = dropWhile P (drop k xs)"
  by (metis add.commute drop_drop dropWhile_eq_drop)

lemma take_takeWhile_length:
  "take (k + length (takeWhile P (drop k xs))) xs = take k xs @ takeWhile P (drop k xs)"
  by (metis take_add takeWhile_eq_take)

lemma ci_prefix_nth:
  "ci_prefix lit s \<Longrightarrow> i < length lit \<Longrightarrow> ci_eq (lit ! i) (s ! i)"
  by (auto simp: ci_prefix_def dest: list_all2_nthD)

lemma list_all2_ci_eq_nth:
  "list_all2 ci_eq lit v \<Longrightarrow> i < length lit \<Longrightarrow> ci_eq (lit ! i) ((v @ r) ! i)"
  by (auto simp: nth_append dest: list_all2_nthD list_all2_lengthD)

lemma ci_prefix_append:
  assumes "list_all2 ci_eq lit v"
  shows "ci_prefix lit (v @ r)"
proof -
  have "length lit = length v" using assms by (rule list_all2_lengthD)
  with assms show ?thesis by (simp add: ci_prefix_def)
qed

lemma ci_prefix_take:
  "ci_prefix lit s \<Longrightarrow> list_all2 ci_eq lit (take (length lit) s) \<and> length lit \<le> length s"
  by (simp add: ci_prefix_def)

lemma vendor_prefix_SomeD:
  assumes "vendor_prefix s = Some k"
  shows "k \<le> length s \<and> (list_all2 ci_eq ''gpt-'' (take k s) \<or> list_all2 ci_eq ''claude-'' (take k s)
       \<or> list_all2 ci_eq ''gemini-'' (take k s))"
proof -
  have l: "length ''gpt-'' = 4" "length ''claude-'' = 7" "length ''gemini-'' = 7" by simp_all
  from assms consider "ci_prefix ''gpt-'' s" "k = 4" | "ci_prefix ''claude-'' s" "k = 7"
    | "ci_prefix ''gemini-'' s" "k = 7"
    by (auto simp: vendor_prefix_def split: if_splits)
  then show ?thesis
  proof cases
    case 1
    from ci_prefix_take [OF 1(1)] show ?thesis unfolding l 1(2) by blast
  next
    case 2
    from ci_prefix_take [OF 2(1)] show ?thesis unfolding l 2(2) by blast
  next
    case 3
    from ci_prefix_take [OF 3(1)] show ?thesis unfolding l 3(2) by blast
  qed
qed

lemma vendor_prefix_SomeI:
  assumes "list_all2 ci_eq ''gpt-'' v \<or> list_all2 ci_eq ''claude-'' v \<or> list_all2 ci_eq ''gemini-'' v"
  shows "vendor_prefix (v @ r) = Some (length v)"
proof -
  from assms consider (g) "list_all2 ci_eq ''gpt-'' v" | (c) "list_all2 ci_eq ''claude-'' v"
    | (m) "list_all2 ci_eq ''gemini-'' v" by blast
  then show ?thesis
  proof cases
    case g
    then have "length v = 4" by (auto dest: list_all2_lengthD)
    with ci_prefix_append [OF g] show ?thesis by (simp add: vendor_prefix_def)
  next
    case c
    then have l: "length v = 7" by (auto dest: list_all2_lengthD)
    from list_all2_ci_eq_nth [OF c, of 0 r] have "ci_eq (CHR ''c'') ((v @ r) ! 0)" by simp
    moreover have "ci_eq (CHR ''g'') ((v @ r) ! 0)" if "ci_prefix ''gpt-'' (v @ r)"
      using ci_prefix_nth [OF that, of 0] by simp
    ultimately have "\<not> ci_prefix ''gpt-'' (v @ r)" using ci_eq_distinct(1) by blast
    with ci_prefix_append [OF c] l show ?thesis by (simp add: vendor_prefix_def)
  next
    case m
    then have l: "length v = 7" by (auto dest: list_all2_lengthD)
    from list_all2_ci_eq_nth [OF m, of 0 r] have g0: "ci_eq (CHR ''g'') ((v @ r) ! 0)" by simp
    from list_all2_ci_eq_nth [OF m, of 1 r] have e1: "ci_eq (CHR ''e'') ((v @ r) ! 1)" by simp
    have "ci_eq (CHR ''p'') ((v @ r) ! 1)" if "ci_prefix ''gpt-'' (v @ r)"
      using ci_prefix_nth [OF that, of 1] by simp
    with e1 have n1: "\<not> ci_prefix ''gpt-'' (v @ r)" using ci_eq_distinct(2) by blast
    have "ci_eq (CHR ''c'') ((v @ r) ! 0)" if "ci_prefix ''claude-'' (v @ r)"
      using ci_prefix_nth [OF that, of 0] by simp
    with g0 have n2: "\<not> ci_prefix ''claude-'' (v @ r)" using ci_eq_distinct(1) by blast
    from n1 n2 ci_prefix_append [OF m] l show ?thesis by (simp add: vendor_prefix_def)
  qed
qed

lemma match_model_SomeD:
  assumes M: "match_model t = Some (g, n)"
  shows "\<exists>decl post. t = decl @ post \<and> model_pattern_text g decl \<and> n = length decl"
proof -
  have cp: "ci_prefix ''model'' t" using M by (simp add: match_model_def split: if_splits)
  define kw where "kw = take 5 t"
  define ws1 where "ws1 = takeWhile is_space (drop 5 t)"
  from M cp have "\<exists>r2 q1 r4 k q2 r6.
      drop (5 + length ws1) t = CHR ''='' # r2
      \<and> drop (length (takeWhile is_space r2)) r2 = q1 # r4 \<and> is_quote q1
      \<and> vendor_prefix r4 = Some k
      \<and> takeWhile is_model_char (drop k r4) \<noteq> []
      \<and> drop (k + length (takeWhile is_model_char (drop k r4))) r4 = q2 # r6 \<and> is_quote q2
      \<and> g = take (k + length (takeWhile is_model_char (drop k r4))) r4
      \<and> n = 5 + length ws1 + 1 + length (takeWhile is_space r2) + 1 + k
            + length (takeWhile is_model_char (drop k r4)) + 1"
    by (simp add: match_model_def Let_def ws1_def split: list.splits if_splits option.splits)
  then obtain r2 q1 r4 k q2 r6 where
      r2: "drop (5 + length ws1) t = CHR ''='' # r2"
    and r4: "drop (length (takeWhile is_space r2)) r2 = q1 # r4" and q1: "is_quote q1"
    and k: "vendor_prefix r4 = Some k"
    and run: "takeWhile is_model_char (drop k r4) \<noteq> []"
    and r6: "drop (k + length (takeWhile is_model_char (drop k r4))) r4 = q2 # r6"
    and q2: "is_quote q2"
    and g: "g = take (k + length (takeWhile is_model_char (drop k r4))) r4"
    and n: "n = 5 + length ws1 + 1 + length (takeWhile is_space r2) + 1 + k
            + length (takeWhile is_model_char (drop k r4)) + 1"
    by blast
  define ws2 where "ws2 = takeWhile is_space r2"
  define run where "run = takeWhile is_model_char (drop k r4)"
  define v where "v = take k r4"
  have l5: "length ''model'' = 5" by simp
  have kwl: "length kw = 5" "list_all2 ci_eq ''model'' kw"
    using ci_prefix_take [OF cp] unfolding l5 kw_def by simp_all
  have t1: "t = kw @ drop 5 t" by (simp add: kw_def)
  have "dropWhile is_space (drop 5 t) = CHR ''='' # r2"
    using r2 drop_takeWhile_length [of 5 is_space t] by (simp add: ws1_def)
  then have t2: "drop 5 t = ws1 @ CHR ''='' # r2"
    using takeWhile_dropWhile_id [of is_space "drop 5 t"] by (simp add: ws1_def)
  have "dropWhile is_space r2 = q1 # r4" using r4 by (simp add: dropWhile_eq_drop)
  then have t3: "r2 = ws2 @ q1 # r4"
    using takeWhile_dropWhile_id [of is_space r2] by (simp add: ws2_def)
  have vk: "k \<le> length r4"
    "list_all2 ci_eq ''gpt-'' v \<or> list_all2 ci_eq ''claude-'' v \<or> list_all2 ci_eq ''gemini-'' v"
    using vendor_prefix_SomeD [OF k] by (simp_all add: v_def)
  have "dropWhile is_model_char (drop k r4) = q2 # r6"
    using r6 drop_takeWhile_length [of k is_model_char r4] by simp
  then have t4: "drop k r4 = run @ q2 # r6"
    using takeWhile_dropWhile_id [of is_model_char "drop k r4"] by (simp add: run_def)
  have gv: "g = v @ run"
    unfolding g v_def run_def by (rule take_takeWhile_length)
  have t5: "r4 = g @ q2 # r6"
    using t4 append_take_drop_id [of k r4] by (simp add: gv v_def)
  have vl: "vendor_literal g"
    unfolding vendor_literal_def
    using gv vk(2) run by (intro exI [of _ v] exI [of _ run]) (auto simp: run_def dest: set_takeWhileD)
  have sp: "\<forall>c \<in> set ws1. is_space c" "\<forall>c \<in> set ws2. is_space c"
    by (auto simp: ws1_def ws2_def dest: set_takeWhileD)
  let ?decl = "kw @ ws1 @ ''='' @ ws2 @ [q1] @ g @ [q2]"
  have "t = ?decl @ r6" using t1 t2 t3 t5 by simp
  moreover have "model_pattern_text g ?decl"
    unfolding model_pattern_text_def using kwl(2) sp q1 q2 vl by blast
  moreover have "length v = k" using vk(1) by (simp add: v_def)
  then have "n = length ?decl" using n kwl(1) by (simp add: gv ws2_def run_def)
  ultimately show ?thesis by blast
qed

lemma match_model_SomeI:
  assumes "model_pattern_text g decl"
  shows "match_model (decl @ post) = Some (g, length decl)"
proof -
  from assms obtain kw ws1 ws2 q1 q2 where
      decl: "decl = kw @ ws1 @ ''='' @ ws2 @ [q1] @ g @ [q2]"
    and kw: "list_all2 ci_eq ''model'' kw"
    and sp: "\<forall>c \<in> set ws1. is_space c" "\<forall>c \<in> set ws2. is_space c"
    and q: "is_quote q1" "is_quote q2" and vl: "vendor_literal g"
    unfolding model_pattern_text_def by blast
  from vl obtain v r where g: "g = v @ r"
    and v: "list_all2 ci_eq ''gpt-'' v \<or> list_all2 ci_eq ''claude-'' v \<or> list_all2 ci_eq ''gemini-'' v"
    and r: "r \<noteq> []" "\<forall>c \<in> set r. is_model_char c"
    unfolding vendor_literal_def by blast
  have kl: "length kw = 5" using kw by (auto dest: list_all2_lengthD)
  define r4 where "r4 = g @ q2 # post"
  define r2 where "r2 = ws2 @ q1 # r4"
  define t where "t = decl @ post"
  have t: "t = kw @ ws1 @ CHR ''='' # r2" by (simp add: t_def decl r2_def r4_def)
  have cp: "ci_prefix ''model'' t" unfolding t by (rule ci_prefix_append [OF kw])
  have d5: "drop 5 t = ws1 @ CHR ''='' # r2" using kl by (simp add: t)
  have w1: "takeWhile is_space (drop 5 t) = ws1"
    unfolding d5 using sp(1) equals_sign_not by (intro takeWhile_stop) auto
  have d1: "drop (5 + length ws1) t = CHR ''='' # r2" using kl by (simp add: t)
  have w2: "takeWhile is_space r2 = ws2"
    unfolding r2_def using sp(2) is_quote_not [OF q(1)] by (intro takeWhile_stop) auto
  have d2: "drop (length ws2) r2 = q1 # r4" by (simp add: r2_def)
  have vp: "vendor_prefix r4 = Some (length v)"
    using vendor_prefix_SomeI [OF v, of "r @ q2 # post"] by (simp add: r4_def g)
  have d3: "drop (length v) r4 = r @ q2 # post" by (simp add: r4_def g)
  have w3: "takeWhile is_model_char (drop (length v) r4) = r"
    unfolding d3 using r(2) is_quote_not [OF q(2)] by (intro takeWhile_stop) auto
  have d4: "drop (length v + length r) r4 = q2 # post" by (simp add: r4_def g)
  have tk: "take (length v + length r) r4 = g" by (simp add: r4_def g)
  have len: "length decl = 5 + length ws1 + 1 + length ws2 + 1 + length v + length r + 1"
    using kl by (simp add: decl g)
  have "match_model t = Some (g, length decl)"
    using cp r(1) q by (simp add: match_model_def w1 d1 w2 d2 vp w3 d4 tk len)
  then show ?thesis by (simp add: t_def)
qed

lemma findall_sound:
  "g \<in> set (findall m s) \<Longrightarrow> \<exists>pre t n. s = pre @ t \<and> m t = Some (g, n)"
proof (induction m s rule: findall.induct)
  case (1 m)
  then show ?case by simp
next
  case (2 m c cs)
  show ?case
  proof (cases "m (c # cs)")
    case None
    with 2 obtain pre t n where "cs = pre @ t" "m t = Some (g, n)" by auto
    then have "c # cs = (c # pre) @ t \<and> m t = Some (g, n)" by simp
    then show ?thesis by blast
  next
    case (Some p)
    obtain g' n' where p: "p = (g', n')" by (cases p)
    from 2(3) Some p consider "g = g'" | "g \<in> set (findall m (drop (n' - 1) cs))" by auto
    then show ?thesis
    proof cases
      case 1
      with Some p have "c # cs = [] @ (c # cs) \<and> m (c # cs) = Some (g, n')" by simp
      then show ?thesis by blast
    next
      case 2
      from "2.IH"(2) [OF Some p [symmetric] 2] obtain pre t n
        where "drop (n' - 1) cs = pre @ t" "m t = Some (g, n)" by blast
      then have "c # cs = (c # take (n' - 1) cs @ pre) @ t \<and> m t = Some (g, n)"
        by (metis append_Cons append_assoc append_take_drop_id)
      then show ?thesis by blast
    qed
  qed
qed

lemma findall_complete:
  assumes "m t = Some (g, n)" and "t \<noteq> []"
    and "\<And>a b g' n'. pre @ t = a @ b \<Longrightarrow> length a < length pre \<Longrightarrow> m b = Some (g', n')
           \<Longrightarrow> 0 < n' \<and> length a + n' \<le> length pre"
  shows "g \<in> set (findall m (pre @ t))"
  using assms(3)
proof (induction "length pre" arbitrary: pre rule: less_induct)
  case less
  show ?case
  proof (cases pre)
    case Nil
    obtain c cs where "t = c # cs" using assms(2) by (cases t) auto
    with assms(1) Nil show ?thesis by simp
  next
    case (Cons c pre')
    show ?thesis
    proof (cases "m (pre @ t)")
      case None
      have "g \<in> set (findall m (pre' @ t))"
      proof (rule less.hyps)
        show "length pre' < length pre" using Cons by simp
        fix a b g' n'
        assume "pre' @ t = a @ b" "length a < length pre'" "m b = Some (g', n')"
        with less.prems [of "c # a" b g' n'] Cons
        show "0 < n' \<and> length a + n' \<le> length pre'" by simp
      qed
      with None Cons show ?thesis by simp
    next
      case (Some p)
      obtain g' n' where p: "p = (g', n')" by (cases p)
      from less.prems [of "[]" "pre @ t" g' n'] Some p Cons
      have n': "0 < n'" "n' \<le> length pre" by simp_all
      define pre2 where "pre2 = drop (n' - 1) pre'"
      have d: "drop (n' - 1) (pre' @ t) = pre2 @ t"
        using n' Cons by (simp add: pre2_def)
      have l2: "length pre2 = length pre - n'" using n' Cons by (simp add: pre2_def)
      have "g \<in> set (findall m (pre2 @ t))"
      proof (rule less.hyps)
        show "length pre2 < length pre" using l2 n' by simp
        fix a b g2 n2
        assume ab: "pre2 @ t = a @ b" "length a < length pre2" "m b = Some (g2, n2)"
        have "pre = c # take (n' - 1) pre' @ pre2"
          using Cons by (simp add: pre2_def)
        then have "pre @ t = (c # take (n' - 1) pre' @ a) @ b" using ab(1) by simp
        moreover have "length (c # take (n' - 1) pre' @ a) = n' + length a"
          using n' Cons by simp
        ultimately have "0 < n2 \<and> n' + length a + n2 \<le> length pre"
          using less.prems [of "c # take (n' - 1) pre' @ a" b g2 n2] ab(2,3) l2 by simp
        then show "0 < n2 \<and> length a + n2 \<le> length pre2" using l2 by linarith
      qed
      with Some p Cons d show ?thesis by simp
    qed
  qed
qed

lemma list_all2_right:
  "list_all2 P xs ys \<Longrightarrow> y \<in> set ys \<Longrightarrow> \<exists>x \<in> set xs. P x y"
  by (induction rule: list_all2_induct) auto

lemma ci_eq_tail_letter:
  assumes "ci_eq l c" "l \<in> set ''odel''"
  shows "\<not> ci_eq (CHR ''m'') c"
proof
  assume m: "ci_eq (CHR ''m'') c"
  from assms(2) have l: "l = CHR ''o'' \<or> l = CHR ''d'' \<or> l = CHR ''e'' \<or> l = CHR ''l''" by simp
  from ci_eq_cases [OF m] show False
  proof
    assume "c = CHR ''m''"
    with assms(1) l show False by (auto simp: ci_eq_def)
  next
    assume u: "65 \<le> (of_char c :: nat) \<and> (of_char c :: nat) \<le> 90"
    then have "c \<noteq> CHR ''m''" "c \<noteq> l" using l by auto
    with m assms(1) have "(of_char l :: nat) = of_char (CHR ''m'')" by (simp add: ci_eq_def)
    with l show False by auto
  qed
qed

lemma match_model_head:
  assumes "match_model u = Some (g, n)"
  shows "u \<noteq> [] \<and> ci_eq (CHR ''m'') (hd u)"
proof -
  have cp: "ci_prefix ''model'' u" using assms by (simp add: match_model_def split: if_splits)
  then have "u \<noteq> []" by (auto simp: ci_prefix_def)
  moreover from ci_prefix_nth [OF cp, of 0] have "ci_eq (CHR ''m'') (u ! 0)" by simp
  ultimately show ?thesis by (simp add: hd_conv_nth)
qed

lemma vendor_literal_chars:
  assumes "vendor_literal g"
  shows "g \<noteq> [] \<and> (\<forall>c \<in> set g. is_model_char c)"
proof -
  from assms obtain v r where g: "g = v @ r"
    and v: "list_all2 ci_eq ''gpt-'' v \<or> list_all2 ci_eq ''claude-'' v \<or> list_all2 ci_eq ''gemini-'' v"
    and r: "r \<noteq> []" "\<forall>c \<in> set r. is_model_char c"
    unfolding vendor_literal_def by blast
  have "is_model_char c" if "c \<in> set v" for c
  proof -
    from v that obtain l where "l \<in> set ''gpt-'' \<union> set ''claude-'' \<union> set ''gemini-''" "ci_eq l c"
      using list_all2_right [of ci_eq _ v c] by blast
    then show ?thesis by (intro ci_eq_vendor_letter [of l c]) auto
  qed
  with g r show ?thesis by auto
qed

lemma declaration_start:
  assumes "model_pattern_text g d"
  shows "\<exists>front rest. d = front @ CHR ''='' # rest \<and> (\<forall>c \<in> set front. c \<noteq> CHR ''='' \<and> \<not> is_quote c)"
proof -
  from assms obtain kw ws1 ws2 q1 q2 where
      d: "d = kw @ ws1 @ ''='' @ ws2 @ [q1] @ g @ [q2]"
    and kw: "list_all2 ci_eq ''model'' kw"
    and sp: "\<forall>c \<in> set ws1. is_space c"
    unfolding model_pattern_text_def by blast
  have "c \<noteq> CHR ''='' \<and> \<not> is_quote c" if "c \<in> set kw" for c
  proof -
    from list_all2_right [OF kw that] obtain l where "l \<in> set ''model''" "ci_eq l c" by blast
    then show ?thesis using ci_eq_model_letter by blast
  qed
  moreover have "c \<noteq> CHR ''='' \<and> \<not> is_quote c" if "c \<in> set ws1" for c
    using that sp is_space_not by blast
  ultimately have "\<forall>c \<in> set (kw @ ws1). c \<noteq> CHR ''='' \<and> \<not> is_quote c" by auto
  moreover have "d = (kw @ ws1) @ CHR ''='' # (ws2 @ [q1] @ g @ [q2])" by (simp add: d)
  ultimately show ?thesis by blast
qed

lemma declaration_shape:
  assumes "model_pattern_text g d"
  shows "\<exists>A q2. d = A @ g @ [q2] \<and> is_quote q2 \<and> A \<noteq> [] \<and> (\<forall>c \<in> set (tl A). \<not> ci_eq (CHR ''m'') c)"
proof -
  from assms obtain kw ws1 ws2 q1 q2 where
      d: "d = kw @ ws1 @ ''='' @ ws2 @ [q1] @ g @ [q2]"
    and kw: "list_all2 ci_eq ''model'' kw"
    and sp: "\<forall>c \<in> set ws1. is_space c" "\<forall>c \<in> set ws2. is_space c"
    and q: "is_quote q1" "is_quote q2"
    unfolding model_pattern_text_def by blast
  from kw obtain k0 ks where ks: "kw = k0 # ks" "list_all2 ci_eq ''odel'' ks"
    by (auto simp: list_all2_Cons1)
  have "\<not> ci_eq (CHR ''m'') c" if "c \<in> set ks" for c
  proof -
    from list_all2_right [OF ks(2) that] obtain l where "l \<in> set ''odel''" "ci_eq l c" by blast
    then show ?thesis by (rule ci_eq_tail_letter [rotated])
  qed
  moreover have "\<not> ci_eq (CHR ''m'') c" if "c \<in> set ws1 \<union> set ws2" for c
    using that sp is_space_not by blast
  moreover note equals_sign_not is_quote_not [OF q(1)]
  ultimately have "\<forall>c \<in> set (ks @ ws1 @ ''='' @ ws2 @ [q1]). \<not> ci_eq (CHR ''m'') c" by auto
  moreover have "d = (k0 # ks @ ws1 @ ''='' @ ws2 @ [q1]) @ g @ [q2]" by (simp add: d ks)
  ultimately show ?thesis using q(2)
    by (intro exI [of _ "k0 # ks @ ws1 @ ''='' @ ws2 @ [q1]"] exI [of _ q2]) simp
qed

lemma match_model_inside_literal:
  assumes "G \<noteq> []" "\<forall>c \<in> set G. is_model_char c" "is_quote q"
  shows "match_model (G @ q # post) = None"
proof (rule ccontr)
  assume "match_model (G @ q # post) \<noteq> None"
  then obtain g n where "match_model (G @ q # post) = Some (g, n)" by auto
  from match_model_SomeD [OF this] obtain d post' where
    dp: "G @ q # post = d @ post'" "model_pattern_text g d" by blast
  from declaration_start [OF dp(2)] obtain front rest where
    fr: "d = front @ CHR ''='' # rest" "\<forall>c \<in> set front. c \<noteq> CHR ''='' \<and> \<not> is_quote c" by blast
  let ?P = "\<lambda>c. c \<noteq> CHR ''='' \<and> \<not> is_quote c"
  have "dropWhile ?P (G @ q # post) = q # post"
    using assms(2,3) is_model_char_not by (intro dropWhile_stop) auto
  moreover have "dropWhile ?P (front @ CHR ''='' # rest @ post') = CHR ''='' # rest @ post'"
    using fr(2) by (intro dropWhile_stop) auto
  ultimately have "q = CHR ''=''" using dp(1) fr(1) by simp
  with assms(3) is_quote_not show False by blast
qed

lemma match_model_no_overlap:
  assumes M: "match_model b = Some (g, n)" and j: "0 < j" "j < n"
  shows "match_model (drop j b) = None"
proof (rule ccontr)
  assume "match_model (drop j b) \<noteq> None"
  then obtain g2 n2 where M2: "match_model (drop j b) = Some (g2, n2)" by auto
  from match_model_head [OF M2] have hd2: "drop j b \<noteq> []" "ci_eq (CHR ''m'') (hd (drop j b))"
    by simp_all
  from match_model_SomeD [OF M] obtain d post where
    dp: "b = d @ post" "model_pattern_text g d" "n = length d" by blast
  from declaration_shape [OF dp(2)] obtain A q2 where
    A: "d = A @ g @ [q2]" "is_quote q2" "A \<noteq> []" "\<forall>c \<in> set (tl A). \<not> ci_eq (CHR ''m'') c"
    by blast
  have vl: "g \<noteq> []" "\<forall>c \<in> set g. is_model_char c"
    using dp(2) vendor_literal_chars by (auto simp: model_pattern_text_def)
  define S1 where "S1 = take j d"
  define S2 where "S2 = drop j d"
  have S0: "S1 @ S2 = d" by (simp add: S1_def S2_def)
  have S: "S1 @ S2 = A @ (g @ [q2])" "S1 \<noteq> []" "S2 \<noteq> []"
  proof -
    show "S1 @ S2 = A @ (g @ [q2])" using S0 A(1) by simp
    show "S1 \<noteq> []" using j dp(3) unfolding S1_def by auto
    show "S2 \<noteq> []" using j dp(3) unfolding S2_def by auto
  qed
  have db: "drop j b = S2 @ post" using j dp(1,3) by (simp add: S2_def)
  from S(1) consider us where "S1 = A @ us" "us @ S2 = g @ [q2]"
    | us where "S1 @ us = A" "S2 = us @ g @ [q2]"
    by (auto simp: append_eq_append_conv2)
  then show False
  proof cases
    case 1
    from S(3) have "S2 = butlast S2 @ [last S2]" by simp
    with 1(2) have "us @ butlast S2 @ [last S2] = g @ [q2]" by simp
    then have bl: "us @ butlast S2 = g" "last S2 = q2"
      by (metis append_assoc append1_eq_conv)+
    show False
    proof (cases "butlast S2 = []")
      case True
      with S(3) bl(2) have "S2 = [q2]" by (metis append_Nil append_butlast_last_id)
      with hd2(2) db A(2) is_quote_not show False by auto
    next
      case False
      have "\<forall>c \<in> set (butlast S2). is_model_char c" using bl(1) vl(2) by auto
      from match_model_inside_literal [OF False this A(2), of post]
      have "match_model (S2 @ post) = None"
        using S(3) bl(2) by (metis append_Cons append_Nil append_assoc append_butlast_last_id)
      with M2 db show False by simp
    qed
  next
    case 2
    show False
    proof (cases "us = []")
      case True
      with 2(2) have "S2 @ post = g @ q2 # post" by simp
      with match_model_inside_literal [OF vl A(2), of post] M2 db show False by simp
    next
      case False
      from 2(1) S(2) have "tl A = tl S1 @ us" by (cases S1) auto
      with False have "hd us \<in> set (tl A)" by simp
      with A(4) have "\<not> ci_eq (CHR ''m'') (hd us)" by blast
      moreover have "hd (drop j b) = hd us" using False 2(2) db by simp
      ultimately show False using hd2(2) by simp
    qed
  qed
qed

lemma declaration_nonempty: "model_pattern_text g d \<Longrightarrow> d \<noteq> []"
  using declaration_shape by fastforce

lemma findall_match_model_iff:
  "g \<in> set (findall match_model code) \<longleftrightarrow> model_pattern_occurs code g"
proof
  assume "g \<in> set (findall match_model code)"
  from findall_sound [OF this] obtain pre t n where
    c: "code = pre @ t" "match_model t = Some (g, n)" by blast
  from match_model_SomeD [OF c(2)] obtain d post where "t = d @ post" "model_pattern_text g d"
    by blast
  with c(1) show "model_pattern_occurs code g" unfolding model_pattern_occurs_def by blast
next
  assume "model_pattern_occurs code g"
  then obtain pre d post where c: "code = pre @ d @ post" and d: "model_pattern_text g d"
    unfolding model_pattern_occurs_def by blast
  define t where "t = d @ post"
  have mt: "match_model t = Some (g, length d)" unfolding t_def by (rule match_model_SomeI [OF d])
  have tn: "t \<noteq> []" using declaration_nonempty [OF d] by (simp add: t_def)
  have "g \<in> set (findall match_model (pre @ t))"
  proof (rule findall_complete [where m = match_model and t = t and n = "length d"], rule mt, rule tn)
    fix a b g' n'
    assume ab: "pre @ t = a @ b" "length a < length pre" "match_model b = Some (g', n')"
    from match_model_SomeD [OF ab(3)] obtain d' where "model_pattern_text g' d'" "n' = length d'"
      by blast
    then have pos: "0 < n'" using declaration_nonempty by auto
    have "length a + n' \<le> length pre"
    proof (rule ccontr)
      assume "\<not> length a + n' \<le> length pre"
      then have j: "0 < length pre - length a" "length pre - length a < n'"
        using ab(2) by simp_all
      have "b = drop (length a) (pre @ t)" using ab(1) by simp
      then have "drop (length pre - length a) b = t" using ab(2) by simp
      with match_model_no_overlap [OF ab(3) j] mt show False by simp
    qed
    with pos show "0 < n' \<and> length a + n' \<le> length pre" by simp
  qed
  then show "g \<in> set (findall match_model code)" by (simp add: c t_def)
qed

lemma models_allowed_iff:
  "models_allowed found allowed \<longleftrightarrow> (\<forall>m \<in> set found. strip m = strip allowed)"
  by (induction found) auto

lemma model_pattern_occurs_strip:
  assumes "model_pattern_occurs code m"
  shows "strip m = m"
proof -
  from assms have "vendor_literal m" by (auto simp: model_pattern_occurs_def model_pattern_text_def)
  from vendor_literal_chars [OF this] have "\<forall>c \<in> set m. \<not> is_space c"
    using is_model_char_not by blast
  then show ?thesis by (rule strip_no_space)
qed

lemma validate_agent_model_usage_iff:
  "validate_agent_model_usage code allowed
     \<longleftrightarrow> (\<forall>m. model_pattern_occurs code m \<longrightarrow> m = strip allowed)"
proof -
  have "validate_agent_model_usage code allowed
          \<longleftrightarrow> (\<forall>m \<in> set (findall match_model code). strip m = strip allowed)"
    by (auto simp: validate_agent_model_usage_def Let_def models_allowed_iff)
  also have "\<dots> \<longleftrightarrow> (\<forall>m. model_pattern_occurs code m \<longrightarrow> strip m = strip allowed)"
    by (simp add: findall_match_model_iff Ball_def)
  also have "\<dots> \<longleftrightarrow> (\<forall>m. model_pattern_occurs code m \<longrightarrow> m = strip allowed)"
    using model_pattern_occurs_strip by (metis (full_types))
  finally show ?thesis .
qed

lemma model_pattern_occurs_claude_x:
  "model_pattern_occurs (pre @ ''model='' @ [dq] @ ''claude-x'' @ [dq] @ post) ''claude-x''"
proof -
  have "vendor_literal ''claude-x''"
    unfolding vendor_literal_def
    by (intro exI [of _ "''claude-''"] exI [of _ "''x''"])
       (simp add: ci_eq_def is_model_char_def is_word_char_def)
  then have "model_pattern_text ''claude-x'' (''model='' @ [dq] @ ''claude-x'' @ [dq])"
    unfolding model_pattern_text_def
    by (intro exI [of _ "''model''"] exI [of _ "[]"] exI [of _ dq])
       (simp add: ci_eq_def is_quote_def dq_def)
  then show ?thesis unfolding model_pattern_occurs_def
    by (intro exI [of _ pre] exI [of _ "''model='' @ [dq] @ ''claude-x'' @ [dq]"] exI [of _ post])
       simp
qed


lemmas vm_eval = match_model_def vendor_prefix_def ci_prefix_def ci_eq_def
  is_quote_def is_model_char_def is_word_char_def is_space_def dq_def sq_def

lemmas claim_eval = claim_discards_def claimed_binding_def quoted_literal_def vendor_prefixed_def
  is_quote_def is_word_char_def is_space_def dq_def sq_def

lemma validate_without_match:
  "findall match_model code = [] \<Longrightarrow> validate_agent_model_usage code allowed"
  by (simp add: validate_agent_model_usage_def)

text \<open>
  Claim C7, as the code has it, for texts of characters with code points below 256. The
  policy check discards a proposal if and only if the pattern occurs in its text with a
  literal that differs (letter case counts) from the sanctioned task-model string after
  the white space around that string is trimmed: somewhere in the text,
  also at the end of a longer identifier, stand the letters \<^verbatim>\<open>model\<close> in any letter case,
  optional white space, an equals sign, optional white space, a single or double quote,
  a literal made of \<^verbatim>\<open>gpt-\<close>, \<^verbatim>\<open>claude-\<close> or \<^verbatim>\<open>gemini-\<close> (in any letter case) and one
  or more letters, digits, underscores, periods or hyphens, and directly a single or
  double quote.  A proposal containing \<^verbatim>\<open>model="claude-x"\<close> is discarded when the
  sanctioned model is \<^verbatim>\<open>gpt-4o-mini\<close>; one whose only such literals are
  \<^verbatim>\<open>gpt-4o-mini\<close> passes; one without such a literal passes for every sanctioned model.
  The key bound in another form, as in \<^verbatim>\<open>model: str = "claude-x"\<close> or
  \<^verbatim>\<open>{"model": "claude-x"}\<close>, or to a literal with other characters, as in
  \<^verbatim>\<open>model="claude-x y"\<close>, is not seen by the check and passes.
\<close>

theorem validate_agent_model_usage_policy:
  "(\<not> validate_agent_model_usage code allowed
      \<longleftrightarrow> (\<exists>m. model_pattern_occurs code m \<and> m \<noteq> strip allowed))
   \<and> \<not> validate_agent_model_usage (pre @ ''model='' @ [dq] @ ''claude-x'' @ [dq] @ post) ''gpt-4o-mini''
   \<and> ((\<forall>m. model_pattern_occurs code m \<longrightarrow> m = ''gpt-4o-mini'')
        \<longrightarrow> validate_agent_model_usage code ''gpt-4o-mini'')
   \<and> ((\<forall>m. \<not> model_pattern_occurs code m) \<longrightarrow> validate_agent_model_usage code allowed)
   \<and> validate_agent_model_usage (''model: str = '' @ [dq] @ ''claude-x'' @ [dq]) allowed
   \<and> validate_agent_model_usage
         (''{'' @ [dq] @ ''model'' @ [dq] @ '': '' @ [dq] @ ''claude-x'' @ [dq] @ ''}'') allowed
   \<and> validate_agent_model_usage (''model='' @ [dq] @ ''claude-x y'' @ [dq]) allowed"
proof (intro conjI impI)
  show "\<not> validate_agent_model_usage code allowed
      \<longleftrightarrow> (\<exists>m. model_pattern_occurs code m \<and> m \<noteq> strip allowed)"
    by (simp add: validate_agent_model_usage_iff)
  have s: "strip ''gpt-4o-mini'' = ''gpt-4o-mini''" by (simp add: strip_def is_space_def)
  show "\<not> validate_agent_model_usage (pre @ ''model='' @ [dq] @ ''claude-x'' @ [dq] @ post) ''gpt-4o-mini''"
    unfolding validate_agent_model_usage_iff s using model_pattern_occurs_claude_x [of pre post] by auto
  show "validate_agent_model_usage code ''gpt-4o-mini''"
    if "\<forall>m. model_pattern_occurs code m \<longrightarrow> m = ''gpt-4o-mini''"
    unfolding validate_agent_model_usage_iff s using that by simp
  show "validate_agent_model_usage code allowed" if "\<forall>m. \<not> model_pattern_occurs code m"
    unfolding validate_agent_model_usage_iff using that by simp
  show "validate_agent_model_usage (''model: str = '' @ [dq] @ ''claude-x'' @ [dq]) allowed"
    by (rule validate_without_match) (simp add: vm_eval)
  show "validate_agent_model_usage
         (''{'' @ [dq] @ ''model'' @ [dq] @ '': '' @ [dq] @ ''claude-x'' @ [dq] @ ''}'') allowed"
    by (rule validate_without_match) (simp add: vm_eval)
  show "validate_agent_model_usage (''model='' @ [dq] @ ''claude-x y'' @ [dq]) allowed"
    by (rule validate_without_match) (simp add: vm_eval)
qed

lemma findall_template:
  "findall match_model (''llm = ChatOpenAI(model='' @ [dq] @ ''gpt-4o-mini'' @ [dq] @ '')'')
     = [''gpt-4o-mini'']"
  by (simp add: vm_eval)

theorem validate_agent_model_usage_policy_witness:
  "validate_agent_model_usage (''llm = ChatOpenAI(model='' @ [dq] @ ''gpt-4o-mini'' @ [dq] @ '')'') ''gpt-4o-mini''
   \<and> validate_agent_model_usage ''def run_agent(question): return question'' ''gpt-4o-mini''
   \<and> \<not> validate_agent_model_usage
         (''llm = ChatOpenAI('' @ ''model='' @ [dq] @ ''claude-x'' @ [dq] @ '')'') ''gpt-4o-mini''"
proof -
  let ?code = "''llm = ChatOpenAI(model='' @ [dq] @ ''gpt-4o-mini'' @ [dq] @ '')''"
  let ?plain = "''def run_agent(question): return question''"
  have a: "\<forall>m. model_pattern_occurs ?code m \<longrightarrow> m = ''gpt-4o-mini''"
    unfolding findall_match_model_iff [symmetric] findall_template by simp
  have "findall match_model ?plain = []" by (simp add: vm_eval)
  then have b: "\<forall>m. \<not> model_pattern_occurs ?plain m"
    unfolding findall_match_model_iff [symmetric] by simp
  from validate_agent_model_usage_policy [of ?code "''gpt-4o-mini''"] a
  have 1: "validate_agent_model_usage ?code ''gpt-4o-mini''" by blast
  from validate_agent_model_usage_policy [of ?plain "''gpt-4o-mini''"] b
  have 2: "validate_agent_model_usage ?plain ''gpt-4o-mini''" by blast
  from validate_agent_model_usage_policy [of _ _ "''llm = ChatOpenAI(''" "'')''"]
  have 3: "\<not> validate_agent_model_usage
         (''llm = ChatOpenAI('' @ ''model='' @ [dq] @ ''claude-x'' @ [dq] @ '')'') ''gpt-4o-mini''"
    by blast
  from 1 2 3 show ?thesis by blast
qed

text \<open>
  Claim C7 as the specification words it fails in both directions.  The check passes
  proposals that bind the key \<^verbatim>\<open>model\<close> to a literal other than the sanctioned string:
  \<^verbatim>\<open>model="gpt-4"\<close> when the sanctioned string is \<^verbatim>\<open>"gpt-4 "\<close> with a trailing blank, and,
  for the sanctioned \<^verbatim>\<open>gpt-4o-mini\<close>, \<^verbatim>\<open>model: str = "claude-x"\<close>,
  \<^verbatim>\<open>{"model": "claude-x"}\<close> and \<^verbatim>\<open>model="claude-x y"\<close>.  It discards proposals that
  bind no key named \<^verbatim>\<open>model\<close> to a quoted vendor-prefixed literal:
  \<^verbatim>\<open>embedding_model="gpt-embed-3"\<close>, \<^verbatim>\<open>MODEL='GPT-4o-mini'\<close> and \<^verbatim>\<open>model="claude-x'\<close>, whose
  quote is never closed.
\<close>

theorem validate_agent_model_usage_claim_counterexample:
  "(claim_discards (''model='' @ [dq] @ ''gpt-4'' @ [dq]) ''gpt-4 ''
      \<and> validate_agent_model_usage (''model='' @ [dq] @ ''gpt-4'' @ [dq]) ''gpt-4 '')
   \<and> (claim_discards (''model: str = '' @ [dq] @ ''claude-x'' @ [dq]) ''gpt-4o-mini''
      \<and> validate_agent_model_usage (''model: str = '' @ [dq] @ ''claude-x'' @ [dq]) ''gpt-4o-mini'')
   \<and> (claim_discards
        (''{'' @ [dq] @ ''model'' @ [dq] @ '': '' @ [dq] @ ''claude-x'' @ [dq] @ ''}'') ''gpt-4o-mini''
      \<and> validate_agent_model_usage
          (''{'' @ [dq] @ ''model'' @ [dq] @ '': '' @ [dq] @ ''claude-x'' @ [dq] @ ''}'') ''gpt-4o-mini'')
   \<and> (claim_discards (''model='' @ [dq] @ ''claude-x y'' @ [dq]) ''gpt-4o-mini''
      \<and> validate_agent_model_usage (''model='' @ [dq] @ ''claude-x y'' @ [dq]) ''gpt-4o-mini'')
   \<and> (\<not> claim_discards (''embedding_model='' @ [dq] @ ''gpt-embed-3'' @ [dq]) ''gpt-4o-mini''
      \<and> \<not> validate_agent_model_usage
            (''embedding_model='' @ [dq] @ ''gpt-embed-3'' @ [dq]) ''gpt-4o-mini'')
   \<and> (\<not> claim_discards (''MODEL='' @ [sq] @ ''GPT-4o-mini'' @ [sq]) ''gpt-4o-mini''
      \<and> \<not> validate_agent_model_usage (''MODEL='' @ [sq] @ ''GPT-4o-mini'' @ [sq]) ''gpt-4o-mini'')
   \<and> (\<not> claim_discards (''model='' @ [dq] @ ''claude-x'' @ [sq]) ''gpt-4o-mini''
      \<and> \<not> validate_agent_model_usage (''model='' @ [dq] @ ''claude-x'' @ [sq]) ''gpt-4o-mini'')"
proof -
  have 1: "claim_discards (''model='' @ [dq] @ ''gpt-4'' @ [dq]) ''gpt-4 ''"
    "validate_agent_model_usage (''model='' @ [dq] @ ''gpt-4'' @ [dq]) ''gpt-4 ''"
    by (simp_all add: claim_eval validate_agent_model_usage_def vm_eval strip_def)
  have 2: "claim_discards (''model: str = '' @ [dq] @ ''claude-x'' @ [dq]) ''gpt-4o-mini''"
    "validate_agent_model_usage (''model: str = '' @ [dq] @ ''claude-x'' @ [dq]) ''gpt-4o-mini''"
    by (simp_all add: claim_eval validate_agent_model_usage_def vm_eval strip_def)
  have 3: "claim_discards
        (''{'' @ [dq] @ ''model'' @ [dq] @ '': '' @ [dq] @ ''claude-x'' @ [dq] @ ''}'') ''gpt-4o-mini''"
    "validate_agent_model_usage
          (''{'' @ [dq] @ ''model'' @ [dq] @ '': '' @ [dq] @ ''claude-x'' @ [dq] @ ''}'') ''gpt-4o-mini''"
    by (simp_all add: claim_eval validate_agent_model_usage_def vm_eval strip_def)
  have 4: "claim_discards (''model='' @ [dq] @ ''claude-x y'' @ [dq]) ''gpt-4o-mini''"
    "validate_agent_model_usage (''model='' @ [dq] @ ''claude-x y'' @ [dq]) ''gpt-4o-mini''"
    by (simp_all add: claim_eval validate_agent_model_usage_def vm_eval strip_def)
  have 5: "\<not> claim_discards (''embedding_model='' @ [dq] @ ''gpt-embed-3'' @ [dq]) ''gpt-4o-mini''"
    "\<not> validate_agent_model_usage
            (''embedding_model='' @ [dq] @ ''gpt-embed-3'' @ [dq]) ''gpt-4o-mini''"
    by (simp_all add: claim_eval validate_agent_model_usage_def vm_eval strip_def)
  have 6: "\<not> claim_discards (''MODEL='' @ [sq] @ ''GPT-4o-mini'' @ [sq]) ''gpt-4o-mini''"
    "\<not> validate_agent_model_usage (''MODEL='' @ [sq] @ ''GPT-4o-mini'' @ [sq]) ''gpt-4o-mini''"
    by (simp_all add: claim_eval validate_agent_model_usage_def vm_eval strip_def)
  have 7: "\<not> claim_discards (''model='' @ [dq] @ ''claude-x'' @ [sq]) ''gpt-4o-mini''"
    "\<not> validate_agent_model_usage (''model='' @ [dq] @ ''claude-x'' @ [sq]) ''gpt-4o-mini''"
    by (simp_all add: claim_eval validate_agent_model_usage_def vm_eval strip_def)
  from 1 2 3 4 5 6 7 show ?thesis by blast
qed

section \<open>Properties of parent selection\<close>

lemma map_nth_filter_upt:
  "map (nth xs) (filter (\<lambda>i. P (xs ! i)) [0..<length xs]) = filter P xs"
proof -
  have "filter P xs = filter P (map (nth xs) [0..<length xs])" by (simp add: map_nth)
  also have "\<dots> = map (nth xs) (filter (P \<circ> nth xs) [0..<length xs])" by (rule filter_map)
  finally show ?thesis by (simp add: comp_def)
qed

lemma sum_list_divide:
  "sum_list (map (\<lambda>w. w / t) ws) = sum_list ws / (t :: real)"
  by (induction ws) (simp_all add: add_divide_distrib)

lemma selection_probabilities_sum:
  assumes "ws \<noteq> []"
  shows "sum_list (selection_probabilities ws) = 1"
proof (cases "sum_list ws = 0")
  case True
  have "sum_list (map (\<lambda>one. one / real (length ws)) (replicate (length ws) 1))
          = sum_list (replicate (length ws) (1 :: real)) / real (length ws)"
    by (rule sum_list_divide)
  also have "\<dots> = 1" using assms by (simp add: sum_list_replicate)
  finally show ?thesis using True by (simp add: selection_probabilities_def Let_def)
next
  case False
  then show ?thesis by (simp add: selection_probabilities_def Let_def sum_list_divide)
qed

text \<open>
  Claim C1. For every archive and every \<open>k\<close>, \<^verbatim>\<open>select_parents\<close> returns no parents for
  the empty archive; otherwise it samples from the eligible set, which holds the records
  with score below 1.0, or the whole archive when there is none.  Each eligible record
  is weighted \<open>sigmoid (\<lambda> (score - \<alpha>0)) / (1 + children_count)\<close> with
  \<open>sigmoid x = 1 / (1 + e\<^sup>-\<^sup>x)\<close>.  When the weights sum to exactly zero every selection
  probability is \<open>1 / n\<close> for the \<open>n\<close> eligible records, and otherwise each is its weight
  divided by the sum; either way the probabilities sum to one.
\<close>

theorem select_parents_distribution:
  "select_parents X [] k lam a0 w = ([], w)
   \<and> (arch \<noteq> [] \<longrightarrow>
        (\<exists>eligible.
           select_parents X arch k lam a0 w
             = random_choice X eligible k
                 (selection_probabilities (map (\<lambda>i. weight lam a0 (arch ! i)) eligible)) w
           \<and> (\<forall>i \<in> set eligible. i < length arch)
           \<and> map (nth arch) eligible
               = (if filter (\<lambda>a. score a < 1) arch = [] then arch
                  else filter (\<lambda>a. score a < 1) arch)))
   \<and> weight lam a0 a = sigmoid (lam * (score a - a0)) * (1 / (1 + real (children_count a)))
   \<and> sigmoid x = 1 / (1 + exp (- x))
   \<and> length (selection_probabilities ws) = length ws
   \<and> (sum_list ws = 0 \<longrightarrow> (\<forall>p \<in> set (selection_probabilities ws). p = 1 / real (length ws)))
   \<and> (sum_list ws \<noteq> 0 \<longrightarrow> selection_probabilities ws = map (\<lambda>w_i. w_i / sum_list ws) ws)
   \<and> (ws \<noteq> [] \<longrightarrow> sum_list (selection_probabilities ws) = 1)"
proof (intro conjI impI)
  show "select_parents X [] k lam a0 w = ([], w)" by (simp add: select_parents_def)
  show "weight lam a0 a = sigmoid (lam * (score a - a0)) * (1 / (1 + real (children_count a)))"
    by (simp add: weight_def sigmoid_def)
  show "sigmoid x = 1 / (1 + exp (- x))" by (simp add: sigmoid_def)
  show "length (selection_probabilities ws) = length ws"
    by (simp add: selection_probabilities_def Let_def)
  show "\<forall>p \<in> set (selection_probabilities ws). p = 1 / real (length ws)" if "sum_list ws = 0"
    using that by (auto simp: selection_probabilities_def Let_def)
  show "selection_probabilities ws = map (\<lambda>w_i. w_i / sum_list ws) ws" if "sum_list ws \<noteq> 0"
    using that by (simp add: selection_probabilities_def Let_def)
  show "sum_list (selection_probabilities ws) = 1" if "ws \<noteq> []"
    using that by (rule selection_probabilities_sum)
  show "\<exists>eligible.
           select_parents X arch k lam a0 w
             = random_choice X eligible k
                 (selection_probabilities (map (\<lambda>i. weight lam a0 (arch ! i)) eligible)) w
           \<and> (\<forall>i \<in> set eligible. i < length arch)
           \<and> map (nth arch) eligible
               = (if filter (\<lambda>a. score a < 1) arch = [] then arch
                  else filter (\<lambda>a. score a < 1) arch)"
    if ne: "arch \<noteq> []"
  proof -
    let ?below = "filter (\<lambda>i. score (arch ! i) < 1) [0..<length arch]"
    let ?E = "if ?below = [] then [0..<length arch] else ?below"
    have m: "map (nth arch) ?below = filter (\<lambda>a. score a < 1) arch"
      by (rule map_nth_filter_upt)
    then have e: "?below = [] \<longleftrightarrow> filter (\<lambda>a. score a < 1) arch = []"
      by (metis map_is_Nil_conv)
    have 1: "select_parents X arch k lam a0 w
             = random_choice X ?E k
                 (selection_probabilities (map (\<lambda>i. weight lam a0 (arch ! i)) ?E)) w"
      using ne by (simp add: select_parents_def Let_def)
    have 2: "\<forall>i \<in> set ?E. i < length arch" by auto
    have 3: "map (nth arch) ?E
               = (if filter (\<lambda>a. score a < 1) arch = [] then arch
                  else filter (\<lambda>a. score a < 1) arch)"
      using m e by (simp add: map_nth)
    from 1 2 3 show ?thesis by blast
  qed
qed

theorem select_parents_distribution_witness:
  "select_parents demo_collaborators [] 1 30 (1 / 2) demo_world = ([], demo_world)
   \<and> select_parents demo_collaborators [demo_seed] 1 30 (1 / 2) demo_world = ([0], demo_world)
   \<and> selection_probabilities [0, 0] = [1 / 2, 1 / 2]
   \<and> selection_probabilities [1, 3] = [1 / 4, 3 / 4]"
proof -
  note t = select_parents_distribution
             [of demo_collaborators 1 30 "1 / 2" demo_world "[demo_seed]" demo_seed 0]
  have ne: "[demo_seed] \<noteq> []" by simp
  from t [of "[0, 0]"] ne obtain eligible where
    e: "select_parents demo_collaborators [demo_seed] 1 30 (1 / 2) demo_world
          = random_choice demo_collaborators eligible 1
              (selection_probabilities (map (\<lambda>i. weight 30 (1 / 2) ([demo_seed] ! i)) eligible))
              demo_world"
      "\<forall>i \<in> set eligible. i < length [demo_seed]"
      "map (nth [demo_seed]) eligible
         = (if filter (\<lambda>a. score a < 1) [demo_seed] = [] then [demo_seed]
            else filter (\<lambda>a. score a < 1) [demo_seed])"
    by blast
  from e(3) have "map (nth [demo_seed]) eligible = [demo_seed]"
    by (simp add: demo_seed_fields split: if_splits)
  then have "length (map (nth [demo_seed]) eligible) = length [demo_seed]" by (rule arg_cong)
  then have "length eligible = 1" by simp
  with e(2) have "eligible = [0]" by (cases eligible) auto
  with e(1) have 2: "select_parents demo_collaborators [demo_seed] 1 30 (1 / 2) demo_world
      = ([0], demo_world)"
    by (simp add: demo_collaborators_fields)
  from t [of "[0, 0]"] have 1: "select_parents demo_collaborators [] 1 30 (1 / 2) demo_world
      = ([], demo_world)" by blast
  have z: "sum_list [0, 0 :: real] = 0" and nz: "sum_list [1, 3 :: real] \<noteq> 0" by simp_all
  from t [of "[0, 0]"] z
  have "length (selection_probabilities [0, 0]) = length [0, 0 :: real]"
    "\<forall>p \<in> set (selection_probabilities [0, 0]). p = 1 / real (length [0, 0 :: real])"
    by blast+
  then have 3: "selection_probabilities [0, 0] = [1 / 2, 1 / 2]"
    by (cases "selection_probabilities [0, 0]"; cases "tl (selection_probabilities [0, 0])") auto
  from t [of "[1, 3]"] nz
  have "selection_probabilities [1, 3] = map (\<lambda>w_i. w_i / sum_list [1, 3]) [1, 3]" by blast
  then have 4: "selection_probabilities [1, 3] = [1 / 4, 3 / 4]" by simp
  from 1 2 3 4 show ?thesis by blast
qed


section \<open>Properties of the candidate loader\<close>

text \<open>
  When the executed module returns and leaves the interpreter's tables alone, the loader
  undoes its own changes: the search path and the registered names are as before.
\<close>

lemma load_agent_from_file_cleans_up:
  assumes "has_loader X (abspath X filepath)"
    and "dirname X (abspath X filepath) \<notin> set (sys_path w)"
    and "module_name \<notin> sys_modules w"
    and "\<And>v. exec_module X (abspath X filepath) module_name v = (Inr m, v)"
  shows "load_agent_from_file X filepath module_name w = (Some m, w)"
  using assms by (simp add: load_agent_from_file_def Let_def)

text \<open>
  Claim C4 asks the same of a load that fails.  There the code returns from its
  exception handler without the two clean-up steps: loading a source that raises while
  it is executed gives no module, leaves the module's directory at the head of the
  search path and leaves the logical name registered; the load of the seed in the same
  world leaves no trace.
\<close>

theorem load_agent_from_file_leaks_on_failure:
  "fst (load_agent_from_file demo_collaborators ''agents/math_agent_v7.py'' ''v7''
          (demo_world\<lparr>files := (files demo_world)(''agents/math_agent_v7.py'' \<mapsto> ''broken'')\<rparr>))
     = None
   \<and> sys_path (snd (load_agent_from_file demo_collaborators ''agents/math_agent_v7.py'' ''v7''
          (demo_world\<lparr>files := (files demo_world)(''agents/math_agent_v7.py'' \<mapsto> ''broken'')\<rparr>)))
     = ''agents'' # sys_path demo_world
   \<and> ''v7'' \<in> sys_modules (snd (load_agent_from_file demo_collaborators
          ''agents/math_agent_v7.py'' ''v7''
          (demo_world\<lparr>files := (files demo_world)(''agents/math_agent_v7.py'' \<mapsto> ''broken'')\<rparr>)))
   \<and> ''v7'' \<notin> sys_modules demo_world
   \<and> snd (load_agent_from_file demo_collaborators ''agents/math_agent_v0.py'' ''v0'' demo_world)
     = demo_world"
  by (simp add: load_agent_from_file_def demo_collaborators_fields demo_exec_def demo_world_fields)

section \<open>Properties of the evolution loop\<close>

lemma digit_roundtrip:
  assumes "d < 10"
  shows "of_char (''0123456789'' ! d) - 48 = d"
proof -
  from assms have "d = 0 \<or> d = 1 \<or> d = 2 \<or> d = 3 \<or> d = 4 \<or> d = 5 \<or> d = 6 \<or> d = 7 \<or> d = 8 \<or> d = 9"
    by arith
  then show ?thesis by (elim disjE) simp_all
qed

lemma decimal_value_snoc:
  "decimal_value (s @ [c]) = 10 * decimal_value s + (of_char c - 48)"
  by (simp add: decimal_value_def)

lemma decimal_value_str_nat: "decimal_value (str_nat n) = n"
proof (induction n rule: str_nat.induct)
  case (1 n)
  show ?case
  proof (cases "n < 10")
    case True
    then show ?thesis
      by (subst str_nat.simps) (simp add: decimal_value_def digit_roundtrip)
  next
    case False
    with 1 have "decimal_value (str_nat (n div 10)) = n div 10" by simp
    moreover have "of_char (''0123456789'' ! (n mod 10)) - 48 = n mod 10"
      by (rule digit_roundtrip) simp
    ultimately show ?thesis using False
      by (subst str_nat.simps) (simp add: decimal_value_snoc)
  qed
qed

lemma str_nat_inject: "str_nat n = str_nat k \<longleftrightarrow> n = k"
  by (metis decimal_value_str_nat)

lemma str_nat_values: "str_nat 0 = ''0''" "str_nat 1 = ''1''" "str_nat 7 = ''7''"
  by (simp_all add: str_nat.simps)

lemma evaluate_child_cases:
  "agent_version_counter (evaluate_child X cfg p pc nc st) = agent_version_counter st + 1
   \<and> (archive (evaluate_child X cfg p pc nc st) = archive st
       \<or> child_added p (agent_version_counter st + 1) (archive st)
            (archive (evaluate_child X cfg p pc nc st)))"
  by (simp add: evaluate_child_def Let_def child_added_def split: prod.splits option.splits)

lemma process_parent_cases:
  "(agent_version_counter (process_parent X cfg st p) = agent_version_counter st
      \<and> archive (process_parent X cfg st p) = archive st)
   \<or> (agent_version_counter (process_parent X cfg st p) = agent_version_counter st + 1
      \<and> (archive (process_parent X cfg st p) = archive st
          \<or> child_added p (agent_version_counter st + 1) (archive st)
               (archive (process_parent X cfg st p))))"
proof (cases "request_mutation X cfg (archive st ! p) (world st)")
  case (Pair r w)
  show ?thesis
  proof (cases r)
    case None
    with Pair show ?thesis by (simp add: process_parent_def)
  next
    case (Some pn)
    obtain pc nc where "pn = (pc, nc)" by (cases pn)
    with Pair Some evaluate_child_cases [of X cfg p pc nc "st\<lparr>world := w\<rparr>"]
    show ?thesis by (simp add: process_parent_def)
  qed
qed

lemma archive_extends_refl: "archive_extends a a"
  by (simp add: archive_extends_def record_kept_def)

lemma archive_extends_trans:
  assumes "archive_extends a b" "archive_extends b c"
  shows "archive_extends a c"
proof -
  have "record_kept (a ! i) (c ! i)" if "i < length a" for i
  proof -
    from that assms have "record_kept (a ! i) (b ! i)" "record_kept (b ! i) (c ! i)"
      by (auto simp: archive_extends_def)
    then show ?thesis by (simp add: record_kept_def)
  qed
  with assms show ?thesis by (simp add: archive_extends_def)
qed

lemma child_added_extends:
  assumes "child_added p v old new"
  shows "archive_extends old new"
proof -
  from assms obtain child where
    n: "new = old[p := (old ! p)\<lparr>children_count := children_count (old ! p) + 1\<rparr>] @ [child]"
    unfolding child_added_def by blast
  have "record_kept (old ! i) (new ! i)" if "i < length old" for i
    using that by (cases "i = p") (simp_all add: n nth_append record_kept_def)
  then show ?thesis by (simp add: archive_extends_def n)
qed

lemma child_added_ids:
  assumes "child_added p v old new"
  shows "map agent_id new = map agent_id old @ [''v'' @ str_nat v]"
proof -
  from assms obtain child where
    n: "new = old[p := (old ! p)\<lparr>children_count := children_count (old ! p) + 1\<rparr>] @ [child]"
    and c: "agent_id child = ''v'' @ str_nat v"
    unfolding child_added_def by blast
  have "map agent_id (old[p := (old ! p)\<lparr>children_count := children_count (old ! p) + 1\<rparr>])
          = map agent_id old"
  proof (cases "p < length old")
    case True
    then show ?thesis by (simp add: map_update list_update_same_conv)
  next
    case False
    then have "old[p := (old ! p)\<lparr>children_count := children_count (old ! p) + 1\<rparr>] = old"
      by (intro list_update_beyond) simp
    then show ?thesis by simp
  qed
  with n c show ?thesis by simp
qed

lemma process_parent_extends:
  "archive_extends (archive st) (archive (process_parent X cfg st p))"
  using process_parent_cases [of X cfg st p] archive_extends_refl child_added_extends
  by metis

lemma process_parent_counter:
  "agent_version_counter st \<le> agent_version_counter (process_parent X cfg st p)"
  using process_parent_cases [of X cfg st p] by auto

lemma ids_assigned_step:
  assumes "ids_assigned st"
    and "agent_version_counter st' = agent_version_counter st + 1"
    and "child_added p (agent_version_counter st + 1) (archive st) (archive st')"
  shows "ids_assigned st'"
proof -
  let ?c = "agent_version_counter st"
  from child_added_ids [OF assms(3)]
  have ids: "map agent_id (archive st') = map agent_id (archive st) @ [''v'' @ str_nat (?c + 1)]" .
  have old: "\<forall>x \<in> set (map agent_id (archive st)). \<exists>n \<le> ?c. x = ''v'' @ str_nat n"
    using assms(1) by (auto simp: ids_assigned_def)
  have fresh: "''v'' @ str_nat (?c + 1) \<notin> set (map agent_id (archive st))"
  proof
    assume "''v'' @ str_nat (?c + 1) \<in> set (map agent_id (archive st))"
    with old obtain n where "n \<le> ?c" "''v'' @ str_nat (?c + 1) = ''v'' @ str_nat n" by blast
    then show False by (simp add: str_nat_inject)
  qed
  have d: "distinct (map agent_id (archive st'))"
    using assms(1) fresh unfolding ids by (simp add: ids_assigned_def)
  have "\<forall>x \<in> set (map agent_id (archive st')). \<exists>n \<le> agent_version_counter st'. x = ''v'' @ str_nat n"
  proof
    fix x assume "x \<in> set (map agent_id (archive st'))"
    then consider "x \<in> set (map agent_id (archive st))" | "x = ''v'' @ str_nat (?c + 1)"
      unfolding ids by auto
    then show "\<exists>n \<le> agent_version_counter st'. x = ''v'' @ str_nat n"
    proof cases
      case 1
      with old obtain n where "n \<le> ?c" "x = ''v'' @ str_nat n" by blast
      then show ?thesis using assms(2) by (intro exI [of _ n]) simp
    next
      case 2
      then show ?thesis using assms(2) by (intro exI [of _ "?c + 1"]) simp
    qed
  qed
  with d show ?thesis by (auto simp: ids_assigned_def)
qed

lemma ids_assigned_same_archive:
  assumes "ids_assigned st" "archive st' = archive st"
    and "agent_version_counter st \<le> agent_version_counter st'"
  shows "ids_assigned st'"
  using assms unfolding ids_assigned_def by (metis le_trans)

lemma process_parent_ids:
  assumes "ids_assigned st"
  shows "ids_assigned (process_parent X cfg st p)"
  using process_parent_cases [of X cfg st p] assms
    ids_assigned_step [of st "process_parent X cfg st p" p]
    ids_assigned_same_archive [of st "process_parent X cfg st p"]
  by (metis le_add1 order_refl)

lemma foldl_process_parent:
  "archive_extends (archive st) (archive (foldl (process_parent X cfg) st parents))
   \<and> agent_version_counter st \<le> agent_version_counter (foldl (process_parent X cfg) st parents)
   \<and> (ids_assigned st \<longrightarrow> ids_assigned (foldl (process_parent X cfg) st parents))"
proof (induction parents arbitrary: st)
  case Nil
  show ?case by (simp add: archive_extends_refl)
next
  case (Cons p parents)
  let ?s = "process_parent X cfg st p"
  from Cons [of ?s] process_parent_extends [of st X cfg p] process_parent_counter [of st X cfg p]
    process_parent_ids [of st X cfg p]
  show ?case by (auto intro: archive_extends_trans)
qed

lemma dgm_iterations_invariants:
  "archive_extends (archive st) (archive (dgm_iterations X cfg T st))
   \<and> agent_version_counter st \<le> agent_version_counter (dgm_iterations X cfg T st)
   \<and> (ids_assigned st \<longrightarrow> ids_assigned (dgm_iterations X cfg T st))"
proof (induction T arbitrary: st)
  case 0
  show ?case by (simp add: archive_extends_refl)
next
  case (Suc T)
  obtain parents w where sp: "select_parents X (archive st) (num_parents_to_select_k (params cfg))
             (sigmoid_lambda (params cfg)) (sigmoid_alpha0 (params cfg)) (world st) = (parents, w)"
    by (cases "select_parents X (archive st) (num_parents_to_select_k (params cfg))
             (sigmoid_lambda (params cfg)) (sigmoid_alpha0 (params cfg)) (world st)")
  let ?s0 = "st\<lparr>world := w\<rparr>"
  have s0: "archive ?s0 = archive st" "agent_version_counter ?s0 = agent_version_counter st"
    "ids_assigned ?s0 = ids_assigned st" by (simp_all add: ids_assigned_def)
  show ?case
  proof (cases "parents = []")
    case True
    with sp s0 show ?thesis by (simp add: archive_extends_refl)
  next
    case False
    let ?s1 = "foldl (process_parent X cfg) ?s0 parents"
    have d: "dgm_iterations X cfg (Suc T) st = dgm_iterations X cfg T ?s1"
      using sp False by simp
    from foldl_process_parent [of ?s0 X cfg parents] s0
    have 1: "archive_extends (archive st) (archive ?s1)"
      "agent_version_counter st \<le> agent_version_counter ?s1"
      "ids_assigned st \<longrightarrow> ids_assigned ?s1" by simp_all
    from Suc [of ?s1] 1 show ?thesis unfolding d
      by (auto intro: archive_extends_trans)
  qed
qed

lemma run_dgm_loop_ids:
  assumes "run_dgm_loop X cfg w0 = (res, final)"
  shows "ids_assigned final \<and> (res \<noteq> None \<longrightarrow> archive final \<noteq> [] \<and> agent_id (archive final ! 0) = ''v0'')"
proof -
  obtain am w1 where ld: "load_agent_from_file X (start_agent_path cfg) (''math_agent_v'' @ str_nat 0) w0 = (am, w1)"
    by (cases "load_agent_from_file X (start_agent_path cfg) (''math_agent_v'' @ str_nat 0) w0")
  have empty: "ids_assigned \<lparr>archive = [], agent_version_counter = 0, world = w1\<rparr>"
    by (simp add: ids_assigned_def)
  show ?thesis
  proof (cases "\<exists>m r. am = Some m \<and> run_agent m = Some r")
    case False
    then have "run_dgm_loop X cfg w0
        = (None, \<lparr>archive = [], agent_version_counter = 0, world = w1\<rparr>)"
      using ld by (auto simp: run_dgm_loop_def Let_def split: option.splits)
    with assms empty show ?thesis by auto
  next
    case True
    then obtain m r where m: "am = Some m" "run_agent m = Some r" by blast
    obtain sc w2 where ev: "evaluate_agent_on_dataset am (validation_data cfg) w1 = (sc, w2)"
      by (cases "evaluate_agent_on_dataset am (validation_data cfg) w1")
    define g0 where "g0 = \<lparr>agent_id = ''v'' @ str_nat 0, path = start_agent_path cfg, score = sc,
                            children_count = 0, parent_id = None\<rparr>"
    define st0 :: "'a loop_state" where
      "st0 = \<lparr>archive = [g0], agent_version_counter = 0, world = w2\<rparr>"
    define st where "st = dgm_iterations X cfg (nat (num_iterations cfg)) st0"
    have "ids_assigned st0" by (auto simp: ids_assigned_def st0_def g0_def)
    with dgm_iterations_invariants [of st0 X cfg "nat (num_iterations cfg)"]
    have inv: "archive_extends (archive st0) (archive st)" "ids_assigned st"
      by (simp_all add: st_def)
    from inv(1) have ne: "archive st \<noteq> []" "agent_id (archive st ! 0) = ''v0''"
      by (auto simp: archive_extends_def record_kept_def st0_def g0_def str_nat.simps)
    have "snd (run_dgm_loop X cfg w0) = st"
      using ld m ev
      by (simp add: run_dgm_loop_def Let_def st_def st0_def g0_def split: list.splits)
    with assms inv(2) ne show ?thesis by simp
  qed
qed


lemma demo_state_fields:
  "archive demo_state = [demo_seed]" "agent_version_counter demo_state = 0"
  "world demo_state = demo_world"
  by (simp_all add: demo_state_def)

lemma improving_collaborators_fields:
  "abspath improving_collaborators = (\<lambda>p. p)"
  "dirname improving_collaborators = (\<lambda>p. ''agents'')"
  "path_join improving_collaborators = (\<lambda>a b. a @ ''/'' @ b)"
  "has_loader improving_collaborators = (\<lambda>p. True)"
  "exec_module improving_collaborators = demo_exec"
  "random_choice improving_collaborators = (\<lambda>a k p w. (replicate k (hd a), w))"
  "dataset_shuffle improving_collaborators = dataset_shuffle demo_collaborators"
  "call_developer_agent improving_collaborators
     = (\<lambda>previous_code success_examples failed_examples current_version_id
          task_model meta_model w. (Some ''improved'', w))"
  by (simp_all add: improving_collaborators_def demo_collaborators_fields)

lemma improving_load:
  "load_agent_from_file improving_collaborators = load_agent_from_file demo_collaborators"
  by (intro ext) (simp add: load_agent_from_file_def Let_def improving_collaborators_def)

lemma improving_request:
  "request_mutation improving_collaborators demo_config demo_seed demo_world
     = (Some (''seed'', ''improved''), demo_world)"
  by (simp add: request_mutation_def demo_seed_fields improving_load demo_load_seed
      improving_collaborators_fields(7,8) demo_config_fields(6,7,12) demo_mine_seed
      demo_world_fields py_prefix_def)

lemma demo_load_idle:
  "load_agent_from_file demo_collaborators ''agents/idle.py'' ''v0'' demo_world
   = (Some (Agent_module None), demo_world)"
  by (simp add: load_agent_from_file_def demo_collaborators_fields demo_exec_def demo_world_fields)

lemma demo_score_child:
  "evaluate_agent_on_dataset (Some (Agent_module (Some seed_runner)))
     (validation_data demo_config) w = (1, w)"
  by (simp add: evaluate_agent_on_dataset_def demo_config_fields seed_runner_def efa_eval)

lemma demo_child_name: "str_nat (Suc 0) = ''1''"
  by (simp add: str_nat.simps)

lemma demo_guard:
  "strip ''broken'' \<noteq> strip ''seed''" "strip ''improved'' \<noteq> strip ''seed''"
  "validate_agent_model_usage ''broken'' ''gpt-4o-mini''"
  "validate_agent_model_usage ''improved'' ''gpt-4o-mini''"
  by (simp_all add: strip_def is_space_def validate_agent_model_usage_def vm_eval)

lemma demo_load_child:
  "load_agent_from_file demo_collaborators ''agents/math_agent_v1.py'' ''v1''
     (save_agent_code demo_collaborators ''agents'' ''math_agent_v1.py'' ''improved'' demo_world)
   = (Some (Agent_module (Some seed_runner)),
      save_agent_code demo_collaborators ''agents'' ''math_agent_v1.py'' ''improved'' demo_world)"
  by (simp add: load_agent_from_file_def save_agent_code_def demo_collaborators_fields
      demo_exec_def demo_world_fields)

lemma improving_step:
  "process_parent improving_collaborators demo_config demo_state 0
     = \<lparr>archive = [demo_seed\<lparr>children_count := 1\<rparr>,
                   \<lparr>agent_id = ''v1'', path = ''agents/math_agent_v1.py'', score = 1,
                    children_count = 0, parent_id = Some ''v0''\<rparr>],
        agent_version_counter = 1,
        world = save_agent_code demo_collaborators ''agents'' ''math_agent_v1.py'' ''improved''
                  demo_world\<rparr>"
proof -
  have s: "save_agent_code improving_collaborators = save_agent_code demo_collaborators"
    by (intro ext) (simp add: save_agent_code_def improving_collaborators_def)
  show ?thesis
    by (simp add: process_parent_def demo_state_fields improving_request evaluate_child_def
        Let_def demo_guard demo_config_fields(4,6) demo_child_name improving_load s
        improving_collaborators_fields(3) demo_load_child
        demo_score_child demo_seed_fields)
qed

lemma demo_idle_fields:
  "agent_id demo_idle = ''v0''" "path demo_idle = ''agents/idle.py''"
  by (simp_all add: demo_idle_def)

lemma demo_request_idle:
  "request_mutation demo_collaborators demo_config demo_idle demo_world = (None, demo_world)"
  by (simp add: request_mutation_def demo_idle_fields demo_load_idle find_failures_on_train_def)



text \<open>
  Claim C5. Through a run of the loop the archive never shrinks: each processed parent
  and each number of iterations leave an archive that keeps every earlier record at its
  position (only \<^verbatim>\<open>children_count\<close> may have grown) and may add records at the end.
  The version counter never drops; it goes up by one whenever the developer agent
  returned a proposal, whether or not the child is archived, and stays when there was no
  proposal.  A record added by a step carries \<^verbatim>\<open>v\<close> and the new counter value,
  different counter values give different identifiers, and so the identifiers of the
  archive stay pairwise different and at most the counter; the archive of a whole run
  has no identifier twice.
\<close>

theorem archive_grows_with_fresh_ids:
  "archive_extends (archive st) (archive (process_parent X cfg st p))
   \<and> archive_extends (archive st) (archive (dgm_iterations X cfg T st))
   \<and> agent_version_counter st \<le> agent_version_counter (dgm_iterations X cfg T st)
   \<and> (ids_assigned st \<longrightarrow> ids_assigned (dgm_iterations X cfg T st))
   \<and> (request_mutation X cfg (archive st ! p) (world st) = (Some (pc, nc), w)
        \<longrightarrow> agent_version_counter (process_parent X cfg st p) = agent_version_counter st + 1)
   \<and> (request_mutation X cfg (archive st ! p) (world st) = (None, w)
        \<longrightarrow> agent_version_counter (process_parent X cfg st p) = agent_version_counter st
            \<and> archive (process_parent X cfg st p) = archive st)
   \<and> (\<forall>i. length (archive st) \<le> i \<and> i < length (archive (process_parent X cfg st p))
        \<longrightarrow> agent_id (archive (process_parent X cfg st p) ! i)
             = ''v'' @ str_nat (agent_version_counter st + 1))
   \<and> (''v'' @ str_nat n = ''v'' @ str_nat k \<longleftrightarrow> n = k)
   \<and> (run_dgm_loop X cfg w0 = (res, final)
        \<longrightarrow> distinct (map agent_id (archive final)) \<and> ids_assigned final
            \<and> (res \<noteq> None \<longrightarrow> archive final \<noteq> [] \<and> agent_id (archive final ! 0) = ''v0''))"
proof (intro conjI impI allI)
  show "archive_extends (archive st) (archive (process_parent X cfg st p))"
    by (rule process_parent_extends)
  show "archive_extends (archive st) (archive (dgm_iterations X cfg T st))"
    using dgm_iterations_invariants by blast
  show "agent_version_counter st \<le> agent_version_counter (dgm_iterations X cfg T st)"
    using dgm_iterations_invariants by blast
  show "ids_assigned (dgm_iterations X cfg T st)" if "ids_assigned st"
    using that dgm_iterations_invariants by blast
  show "agent_version_counter (process_parent X cfg st p) = agent_version_counter st + 1"
    if "request_mutation X cfg (archive st ! p) (world st) = (Some (pc, nc), w)"
    using that evaluate_child_cases [of X cfg p pc nc "st\<lparr>world := w\<rparr>"]
    by (simp add: process_parent_def)
  show "agent_version_counter (process_parent X cfg st p) = agent_version_counter st"
    "archive (process_parent X cfg st p) = archive st"
    if "request_mutation X cfg (archive st ! p) (world st) = (None, w)"
    using that by (simp_all add: process_parent_def)
  show "agent_id (archive (process_parent X cfg st p) ! i)
             = ''v'' @ str_nat (agent_version_counter st + 1)"
    if i: "length (archive st) \<le> i \<and> i < length (archive (process_parent X cfg st p))" for i
  proof -
    from i have "archive (process_parent X cfg st p) \<noteq> archive st" by auto
    with process_parent_cases [of X cfg st p]
    have "child_added p (agent_version_counter st + 1) (archive st)
            (archive (process_parent X cfg st p))" by auto
    from child_added_ids [OF this]
    have m: "map agent_id (archive (process_parent X cfg st p))
          = map agent_id (archive st) @ [''v'' @ str_nat (agent_version_counter st + 1)]" .
    then have "length (archive (process_parent X cfg st p)) = length (archive st) + 1"
      by (metis length_append_singleton length_map Suc_eq_plus1)
    with i have "i = length (archive st)" by simp
    moreover have "agent_id (archive (process_parent X cfg st p) ! i)
        = map agent_id (archive (process_parent X cfg st p)) ! i" using i by simp
    ultimately show ?thesis unfolding m by (simp add: nth_append)
  qed
  show "''v'' @ str_nat n = ''v'' @ str_nat k \<longleftrightarrow> n = k" by (simp add: str_nat_inject)
  show "distinct (map agent_id (archive final))" if "run_dgm_loop X cfg w0 = (res, final)"
    using run_dgm_loop_ids [OF that] by (simp add: ids_assigned_def)
  show "ids_assigned final" if "run_dgm_loop X cfg w0 = (res, final)"
    using run_dgm_loop_ids [OF that] by simp
  show "archive final \<noteq> []" if "run_dgm_loop X cfg w0 = (res, final)" "res \<noteq> None"
    using run_dgm_loop_ids [OF that(1)] that(2) by simp
  show "agent_id (archive final ! 0) = ''v0''"
    if "run_dgm_loop X cfg w0 = (res, final)" "res \<noteq> None"
    using run_dgm_loop_ids [OF that(1)] that(2) by simp
qed

theorem archive_grows_with_fresh_ids_witness:
  "agent_version_counter (process_parent demo_collaborators demo_config demo_state 0) = 1
   \<and> archive (process_parent demo_collaborators demo_config (demo_state\<lparr>archive := [demo_idle]\<rparr>) 0)
       = [demo_idle]
   \<and> agent_id (archive (process_parent improving_collaborators demo_config demo_state 0) ! 1) = ''v1''
   \<and> archive_extends [demo_seed]
         (archive (process_parent improving_collaborators demo_config demo_state 0))
   \<and> ids_assigned (dgm_iterations demo_collaborators demo_config 1 demo_state)
   \<and> distinct (map agent_id (archive (snd (run_dgm_loop demo_collaborators demo_config demo_world))))"
proof -
  let ?idle = "demo_state\<lparr>archive := [demo_idle]\<rparr>"
  let ?run = "run_dgm_loop demo_collaborators demo_config demo_world"
  note t1 = archive_grows_with_fresh_ids
    [where st = demo_state and X = demo_collaborators and cfg = demo_config and p = 0
       and T = 1 and pc = "''seed''" and nc = "''broken''" and w = demo_world
       and res = "fst ?run" and final = "snd ?run"]
  note t2 = archive_grows_with_fresh_ids
    [where st = ?idle and X = demo_collaborators and cfg = demo_config and p = 0
       and w = demo_world]
  note t3 = archive_grows_with_fresh_ids
    [where st = demo_state and X = improving_collaborators and cfg = demo_config and p = 0]
  have req: "request_mutation demo_collaborators demo_config (archive demo_state ! 0)
               (world demo_state) = (Some (''seed'', ''broken''), demo_world)"
    by (simp add: demo_state_fields demo_request)
  have req_idle: "request_mutation demo_collaborators demo_config (archive ?idle ! 0)
               (world ?idle) = (None, demo_world)"
    by (simp add: demo_state_fields demo_request_idle)
  have ids: "ids_assigned demo_state"
    by (simp add: ids_assigned_def demo_state_fields demo_seed_fields)
       (metis le_refl str_nat_values(1) append_Cons append_Nil)
  have run: "?run = (fst ?run, snd ?run)" by simp
  from t1 req have 1: "agent_version_counter (process_parent demo_collaborators demo_config demo_state 0)
      = agent_version_counter demo_state + 1" by blast
  from t2 req_idle have 2: "archive (process_parent demo_collaborators demo_config ?idle 0)
      = archive ?idle" by blast
  have len: "length (archive demo_state) \<le> 1
      \<and> 1 < length (archive (process_parent improving_collaborators demo_config demo_state 0))"
    by (simp add: improving_step demo_state_fields)
  from t3 have "\<forall>i. length (archive demo_state) \<le> i
        \<and> i < length (archive (process_parent improving_collaborators demo_config demo_state 0))
        \<longrightarrow> agent_id (archive (process_parent improving_collaborators demo_config demo_state 0) ! i)
             = ''v'' @ str_nat (agent_version_counter demo_state + 1)" by blast
  with len have 3: "agent_id (archive (process_parent improving_collaborators demo_config demo_state 0) ! 1)
      = ''v'' @ str_nat (agent_version_counter demo_state + 1)" by blast
  from t3 have 4: "archive_extends (archive demo_state)
      (archive (process_parent improving_collaborators demo_config demo_state 0))" by blast
  from t1 ids have 5: "ids_assigned (dgm_iterations demo_collaborators demo_config 1 demo_state)"
    by blast
  from t1 run have 6: "distinct (map agent_id (archive (snd ?run)))" by blast
  from 1 2 3 4 5 6 show ?thesis
    by (simp add: demo_state_fields demo_child_name)
qed





text \<open>
  Claim C10. Given a candidate that is absent or has no \<^verbatim>\<open>run_agent\<close>,
  \<^verbatim>\<open>mine_failures\<close> returns two empty lists and leaves the world alone.  In the loop a
  parent whose reload gives no module or a module without \<^verbatim>\<open>run_agent\<close> is skipped:
  archive and version counter stay, the world is the one the reload left, and the
  result is the same whatever the developer agent would have answered.
\<close>

theorem unrunnable_parent_is_skipped:
  "find_failures_on_train sh None ds N v = (([], []), v)
   \<and> (run_agent m = None \<longrightarrow> find_failures_on_train sh (Some m) ds N v = (([], []), v))
   \<and> (load_agent_from_file X (path (archive st ! p)) (agent_id (archive st ! p)) (world st)
         = (parent_module, w1)
       \<and> (parent_module = None \<or> (\<exists>m. parent_module = Some m \<and> run_agent m = None))
       \<longrightarrow> (\<forall>developer.
              process_parent (X\<lparr>call_developer_agent := developer\<rparr>) cfg st p
                = st\<lparr>world := w1\<rparr>))"
proof (intro conjI impI allI)
  show "find_failures_on_train sh None ds N v = (([], []), v)"
    by (simp add: find_failures_on_train_def)
  show "find_failures_on_train sh (Some m) ds N v = (([], []), v)" if "run_agent m = None"
    using that by (simp add: find_failures_on_train_def)
  fix developer
  assume a: "load_agent_from_file X (path (archive st ! p)) (agent_id (archive st ! p)) (world st)
         = (parent_module, w1)
       \<and> (parent_module = None \<or> (\<exists>m. parent_module = Some m \<and> run_agent m = None))"
  let ?X = "X\<lparr>call_developer_agent := developer\<rparr>"
  have same: "load_agent_from_file ?X f n u = load_agent_from_file X f n u" for f n u
    by (simp add: load_agent_from_file_def Let_def)
  from a have "request_mutation ?X cfg (archive st ! p) (world st) = (None, w1)"
    by (auto simp: request_mutation_def same find_failures_on_train_def)
  then show "process_parent ?X cfg st p = st\<lparr>world := w1\<rparr>"
    by (simp add: process_parent_def)
qed

theorem unrunnable_parent_is_skipped_witness:
  "find_failures_on_train demo_shuffle None demo_split 5 0 = (([], []), 0)
   \<and> find_failures_on_train demo_shuffle (Some (Agent_module None)) demo_split 5 0 = (([], []), 0)
   \<and> process_parent improving_collaborators demo_config (demo_state\<lparr>archive := [demo_idle]\<rparr>) 0
       = demo_state\<lparr>archive := [demo_idle]\<rparr>"
proof -
  let ?st = "demo_state\<lparr>archive := [demo_idle]\<rparr>"
  note t = unrunnable_parent_is_skipped
    [where X = demo_collaborators and st = ?st and p = 0 and cfg = demo_config
       and parent_module = "Some (Agent_module None)"
       and sh = demo_shuffle and ds = demo_split and N = 5 and v = 0
       and m = "Agent_module None"]
  have ld: "load_agent_from_file demo_collaborators (path (archive ?st ! 0))
              (agent_id (archive ?st ! 0)) (world ?st)
            = (Some (Agent_module None), demo_world)"
    by (simp add: demo_idle_fields demo_load_idle demo_state_fields)
  have r: "run_agent (Agent_module None :: nat agent_module) = None"
    "run_agent (Agent_module None :: unit world agent_module) = None" by simp_all
  from t ld r have "\<forall>developer.
      process_parent (demo_collaborators\<lparr>call_developer_agent := developer\<rparr>) demo_config ?st 0
        = ?st\<lparr>world := demo_world\<rparr>" by blast
  then have "process_parent improving_collaborators demo_config ?st 0 = ?st\<lparr>world := demo_world\<rparr>"
    unfolding improving_collaborators_def by blast
  moreover have "?st\<lparr>world := demo_world\<rparr> = ?st" by (simp add: demo_state_def)
  moreover from t r have "find_failures_on_train demo_shuffle None demo_split 5 0 = (([], []), 0)"
    "find_failures_on_train demo_shuffle (Some (Agent_module None)) demo_split 5 0 = (([], []), 0)"
    by blast+
  ultimately show ?thesis by simp
qed

end
